theory Spec2Isabelle
  imports Main "HOL-Library.Word" "HOL-Library.Log_Nat"
begin

unbundle bit_operations_syntax

section \<open>Machine integers and bytes\<close>

text \<open>
  The C++ addon computes with \<^verbatim>\<open>int\<close> (32 bits, two's complement), \<^verbatim>\<open>size_t\<close>
  (64 bits, unsigned) and \<^verbatim>\<open>uint8_t\<close>. An \<^verbatim>\<open>int\<close> is modelled as a HOL \<open>int\<close>
  and every arithmetic step that can leave the 32-bit range is wrapped by \<open>i32\<close>;
  the conversion of an \<^verbatim>\<open>int\<close> to \<^verbatim>\<open>size_t\<close> is \<open>size_t\<close>. Signed overflow is
  undefined in C++; the model gives it the wrap-around value that the usual compilers
  produce, and the theorems say where they depend on the absence of overflow.
\<close>

type_synonym byte = "8 word"

definition i32 :: "int \<Rightarrow> int" where
  "i32 v = signed_take_bit 31 v"

definition size_t :: "int \<Rightarrow> nat" where
  "size_t v = nat (take_bit 64 v)"

section \<open>Single-precision floats\<close>

text \<open>
  A \<^verbatim>\<open>float\<close> is modelled by the rational number it denotes. \<open>f32\<close> rounds a rational
  to the nearest IEEE 754 binary32 value, ties to even: 24 significant bits, exponent
  at least \<open>-126\<close> (below it the spacing stays \<open>2^-149\<close>, the subnormal numbers).
  Infinities and NaN are not modelled: the model is the C++ evaluation with every
  operation rounded to \<^verbatim>\<open>float\<close> (no fused multiply-add, no extended precision), for
  finite results. \<open>ilog2 x\<close> is the exponent \<open>e\<close> with \<open>2^e \<le> |x| < 2^(e+1)\<close>.
\<close>

definition round_even :: "rat \<Rightarrow> int" where
  "round_even t =
     (let f = \<lfloor>t\<rfloor>; r = t - of_int f in
      if r < 1 / 2 then f else if 1 / 2 < r then f + 1 else if even f then f else f + 1)"

definition ilog2 :: "rat \<Rightarrow> int" where
  "ilog2 x = (if 1 \<le> \<bar>x\<bar> then bitlen \<lfloor>\<bar>x\<bar>\<rfloor> - 1 else - bitlen (\<lceil>1 / \<bar>x\<bar>\<rceil> - 1))"

definition f32 :: "rat \<Rightarrow> rat" where
  "f32 x =
     (if x = 0 then 0
      else let e = max (ilog2 x) (- 126); q = 2 powi (e - 23)
           in of_int (round_even (x / q)) * q)"

text \<open>The arithmetic operators on \<^verbatim>\<open>float\<close>: the exact result, rounded.\<close>

definition fadd :: "rat \<Rightarrow> rat \<Rightarrow> rat" where
  "fadd a b = f32 (a + b)"
definition fsub :: "rat \<Rightarrow> rat \<Rightarrow> rat" where
  "fsub a b = f32 (a - b)"
definition fmul :: "rat \<Rightarrow> rat \<Rightarrow> rat" where
  "fmul a b = f32 (a * b)"
definition fdiv :: "rat \<Rightarrow> rat \<Rightarrow> rat" where
  "fdiv a b = f32 (a / b)"


text \<open>
  Conversions: \<open>i2f\<close> is \<^verbatim>\<open>static_cast<float>\<close> of an \<^verbatim>\<open>int\<close>; \<open>u8f\<close> is a
  \<^verbatim>\<open>uint8_t\<close> used as a \<^verbatim>\<open>float\<close> operand (exact); \<open>trunc\<close> drops the fraction;
  \<open>f2i\<close> and \<open>f2u8\<close> are \<^verbatim>\<open>static_cast<int>\<close> and \<^verbatim>\<open>static_cast<uint8_t>\<close> of a
  \<^verbatim>\<open>float\<close>, which C++ defines only when the truncated value fits the target type: outside
  that range the model wraps around.
\<close>

definition i2f :: "int \<Rightarrow> rat" where
  "i2f n = f32 (of_int n)"
definition u8f :: "byte \<Rightarrow> rat" where
  "u8f b = of_int (uint b)"
definition trunc :: "rat \<Rightarrow> int" where
  "trunc v = (if 0 \<le> v then \<lfloor>v\<rfloor> else \<lceil>v\<rceil>)"
definition f2i :: "rat \<Rightarrow> int" where
  "f2i v = i32 (trunc v)"
definition f2u8 :: "rat \<Rightarrow> byte" where
  "f2u8 v = word_of_int (trunc v)"


text \<open>The spacing of the binary32 values around \<open>x\<close>.\<close>

definition quantum :: "rat \<Rightarrow> rat" where
  "quantum x = 2 powi (max (ilog2 x) (- 126) - 23)"


section \<open>Data model\<close>

text \<open>\<^verbatim>\<open>struct ImageData { std::vector<uint8_t> data; int width; int height; int channels; }\<close>\<close>

record ImageData =
  data :: "byte list"
  width :: int
  height :: int
  channels :: int

text \<open>
  What the addon can do other than return: \<open>TooSmall\<close> is the
  \<^verbatim>\<open>std::runtime_error("Invalid image data: too small")\<close> of \<^verbatim>\<open>parseSimpleImage\<close>;
  \<open>LengthError\<close> is the exception of a \<^verbatim>\<open>std::vector\<close> asked for more than its
  maximal size (a negative \<^verbatim>\<open>int\<close> converted to \<^verbatim>\<open>size_t\<close>); \<open>OutOfBounds\<close> marks
  an unchecked \<^verbatim>\<open>operator[]\<close> access outside the vector.
\<close>

datatype error = TooSmall | LengthError | OutOfBounds

text \<open>The PixelBuffer of the specification: positive dimensions, one to four channels,
  exactly \<open>width * height * channels\<close> bytes, header fields that fit 32 bits.\<close>

definition valid_PixelBuffer :: "ImageData \<Rightarrow> bool" where
  "valid_PixelBuffer buf =
     (1 \<le> width buf \<and> 1 \<le> height buf \<and> 1 \<le> channels buf \<and> channels buf \<le> 4 \<and>
      int (length (data buf)) = width buf * height buf * channels buf \<and>
      width buf < 2 ^ 31 \<and> height buf < 2 ^ 31)"

section \<open>Wire codec\<close>

text \<open>The lambda \<^verbatim>\<open>writeInt\<close> of \<^verbatim>\<open>encodeAsJPEG\<close>: four bytes, most significant first.\<close>

definition writeInt :: "int \<Rightarrow> byte list" where
  "writeInt v = [word_of_int (drop_bit 24 v AND 255), word_of_int (drop_bit 16 v AND 255),
                 word_of_int (drop_bit 8 v AND 255), word_of_int (v AND 255)]"

definition encodeAsJPEG :: "ImageData \<Rightarrow> byte list" where
  "encodeAsJPEG img =
     writeInt (width img) @ writeInt (height img) @ writeInt (channels img) @ data img"

text \<open>The lambda \<^verbatim>\<open>readInt\<close> of \<^verbatim>\<open>parseSimpleImage\<close>; the bytes are promoted to
  \<^verbatim>\<open>int\<close> before they are shifted, so a first byte above 127 gives a negative value.\<close>

definition readInt :: "byte list \<Rightarrow> nat \<Rightarrow> int" where
  "readInt d off = i32 (push_bit 24 (uint (d ! off)) OR push_bit 16 (uint (d ! (off + 1)))
                      OR push_bit 8 (uint (d ! (off + 2))) OR uint (d ! (off + 3)))"

text \<open>
  \<^verbatim>\<open>parseSimpleImage\<close>. It throws on fewer than 12 bytes. A header that fails the
  validation is replaced by guessed dimensions (width 100, three channels). When the
  input is shorter than \<^verbatim>\<open>expectedSize\<close> nothing is thrown: all bytes of the input,
  header included, become the image data. \<^verbatim>\<open>data.assign(data + 12, data + expectedSize)\<close>
  with \<^verbatim>\<open>expectedSize < 12\<close> (possible only after an overflow) is an invalid range and
  is modelled as \<open>LengthError\<close>.
\<close>

definition parseSimpleImage :: "byte list \<Rightarrow> error + ImageData" where
  "parseSimpleImage bytes =
     (let size = length bytes in
      if size < 12 then Inl TooSmall
      else
        let w0 = readInt bytes 0; h0 = readInt bytes 4; c0 = readInt bytes 8;
            (w, h, c) =
              (if w0 \<le> 0 \<or> h0 \<le> 0 \<or> c0 \<le> 0 \<or> c0 > 4 then
                 let h1 = i32 (int (size div size_t (i32 (100 * 3)))) in
                 if h1 \<le> 0 then (i32 (int (size div size_t (i32 (100 * 3)))), 100, 3)
                 else (100, h1, 3)
               else (w0, h0, c0));
            expectedSize = size_t (i32 (12 + i32 (i32 (w * h) * c)))
        in if size \<ge> expectedSize then
             (if expectedSize < 12 then Inl LengthError
              else Inr \<lparr>data = take (expectedSize - 12) (drop 12 bytes),
                        width = w, height = h, channels = c\<rparr>)
           else Inr \<lparr>data = bytes, width = w, height = h, channels = c\<rparr>)"

text \<open>The decoder's view of a header, as the specification words it: the three fields are
  positive and there are at most four channels; \<open>expected\<close> is the size the header
  announces, computed without overflow.\<close>

definition header_valid :: "byte list \<Rightarrow> bool" where
  "header_valid bytes =
     (0 < readInt bytes 0 \<and> 0 < readInt bytes 4 \<and> 0 < readInt bytes 8 \<and> readInt bytes 8 \<le> 4)"

definition expected :: "byte list \<Rightarrow> int" where
  "expected bytes = 12 + readInt bytes 0 * readInt bytes 4 * readInt bytes 8"

text \<open>A header announcing one pixel of one channel, with no payload behind it.\<close>

definition header_1x1x1 :: "byte list" where
  "header_1x1x1 = [0, 0, 0, 1, 0, 0, 0, 1, 0, 0, 0, 1]"

text \<open>A buffer of 2 GiB whose dimensions satisfy the specification's PixelBuffer.\<close>

definition huge_gray :: ImageData where
  "huge_gray = \<lparr>data = replicate (2 ^ 31) 0, width = 65536, height = 32768, channels = 1\<rparr>"

section \<open>Transform engine\<close>

text \<open>\<^verbatim>\<open>data[i]\<close> on a \<^verbatim>\<open>std::vector\<close>: the \<^verbatim>\<open>int\<close> index is converted to \<^verbatim>\<open>size_t\<close> and is
  not checked by the code.\<close>

definition vec_at :: "byte list \<Rightarrow> int \<Rightarrow> error + byte" where
  "vec_at d i = (if size_t i < length d then Inr (d ! size_t i) else Inl OutOfBounds)"

text \<open>
  The lambda \<^verbatim>\<open>getPixel\<close> of \<^verbatim>\<open>bilinearInterpolate\<close>: \<open>defensive\<close> is its guard (the
  branch that returns 0), \<open>pixel_index\<close> is \<^verbatim>\<open>(py * width + px) * channels + ch\<close>.
\<close>

definition defensive :: "int \<Rightarrow> int \<Rightarrow> int \<Rightarrow> int \<Rightarrow> bool" where
  "defensive w h px py = (px < 0 \<or> px \<ge> w \<or> py < 0 \<or> py \<ge> h)"

definition pixel_index :: "int \<Rightarrow> int \<Rightarrow> int \<Rightarrow> int \<Rightarrow> int \<Rightarrow> int" where
  "pixel_index w ch px py c = i32 (i32 (i32 (i32 (py * w) + px) * ch) + c)"

definition getPixel :: "byte list \<Rightarrow> int \<Rightarrow> int \<Rightarrow> int \<Rightarrow> int \<Rightarrow> int \<Rightarrow> int \<Rightarrow> error + byte" where
  "getPixel d w h ch px py c =
     (if defensive w h px py then Inr 0 else vec_at d (pixel_index w ch px py c))"

text \<open>
  \<^verbatim>\<open>bilinearInterpolate\<close>. \<open>neighbours\<close> are \<^verbatim>\<open>x1, y1, x2, y2\<close>; \<open>blend a b t\<close> is
  \<^verbatim>\<open>a * (1 - t) + b * t\<close> in \<^verbatim>\<open>float\<close>; \<open>interpolate\<close> is the \<^verbatim>\<open>float\<close> value that the
  final \<^verbatim>\<open>static_cast<uint8_t>\<close> receives.
\<close>

definition neighbours :: "int \<Rightarrow> int \<Rightarrow> rat \<Rightarrow> rat \<Rightarrow> int \<times> int \<times> int \<times> int" where
  "neighbours w h x y =
     (let x1 = f2i (of_int \<lfloor>x\<rfloor>); y1 = f2i (of_int \<lfloor>y\<rfloor>);
          x2 = min (i32 (x1 + 1)) (i32 (w - 1)); y2 = min (i32 (y1 + 1)) (i32 (h - 1))
      in (x1, y1, x2, y2))"

definition blend :: "rat \<Rightarrow> rat \<Rightarrow> rat \<Rightarrow> rat" where
  "blend a b t = fadd (fmul a (fsub 1 t)) (fmul b t)"

definition interpolate :: "byte list \<Rightarrow> int \<Rightarrow> int \<Rightarrow> int \<Rightarrow> rat \<Rightarrow> rat \<Rightarrow> int \<Rightarrow> error + rat" where
  "interpolate d w h ch x y c =
     (case neighbours w h x y of (x1, y1, x2, y2) \<Rightarrow>
        let dx = fsub x (i2f x1); dy = fsub y (i2f y1) in
        case getPixel d w h ch x1 y1 c of Inl e \<Rightarrow> Inl e | Inr p11 \<Rightarrow>
        case getPixel d w h ch x2 y1 c of Inl e \<Rightarrow> Inl e | Inr p21 \<Rightarrow>
        case getPixel d w h ch x1 y2 c of Inl e \<Rightarrow> Inl e | Inr p12 \<Rightarrow>
        case getPixel d w h ch x2 y2 c of Inl e \<Rightarrow> Inl e | Inr p22 \<Rightarrow>
          let top = blend (u8f p11) (u8f p21) dx; bottom = blend (u8f p12) (u8f p22) dx
          in Inr (blend top bottom dy))"

definition bilinearInterpolate :: "byte list \<Rightarrow> int \<Rightarrow> int \<Rightarrow> int \<Rightarrow> rat \<Rightarrow> rat \<Rightarrow> int \<Rightarrow> error + byte" where
  "bilinearInterpolate d w h ch x y c = map_sum id f2u8 (interpolate d w h ch x y c)"

text \<open>
  The loops of \<^verbatim>\<open>resizeImage\<close> and \<^verbatim>\<open>convertToGrayscale\<close> run over a vector that was
  sized before (\<^verbatim>\<open>output.data.resize(n)\<close>, zero-filled) and store one byte per iteration,
  \<^verbatim>\<open>output.data[i] = v\<close>. \<open>store_all f ks out\<close> runs the iterations \<open>ks\<close> in order;
  \<open>f k\<close> is the index and the byte of iteration \<open>k\<close>, or the error that ends the loop.
\<close>

primrec store_all :: "('k \<Rightarrow> error + int \<times> byte) \<Rightarrow> 'k list \<Rightarrow> byte list \<Rightarrow> error + byte list" where
  "store_all f [] out = Inr out"
| "store_all f (k # ks) out =
     (case f k of
        Inl e \<Rightarrow> Inl e
      | Inr (i, v) \<Rightarrow>
          if size_t i < length out then store_all f ks (list_update out (size_t i) v)
          else Inl OutOfBounds)"

text \<open>The iterations of the nested loops over \<open>y\<close>, \<open>x\<close> and \<open>c\<close>, in the order they run.\<close>

definition loop_nest :: "int \<Rightarrow> int \<Rightarrow> int \<Rightarrow> (int \<times> int \<times> int) list" where
  "loop_nest newHeight newWidth ch =
     concat (map (\<lambda>y. concat (map (\<lambda>x. map (\<lambda>c. (y, x, c)) [0..ch - 1]) [0..newWidth - 1]))
       [0..newHeight - 1])"

definition resize_pixel :: "ImageData \<Rightarrow> int \<Rightarrow> rat \<Rightarrow> rat \<Rightarrow> int \<times> int \<times> int \<Rightarrow> error + int \<times> byte" where
  "resize_pixel input newWidth xRatio yRatio k =
     (case k of (y, x, c) \<Rightarrow>
        let srcX = fmul (i2f x) xRatio; srcY = fmul (i2f y) yRatio in
        case bilinearInterpolate (data input) (width input) (height input) (channels input)
               srcX srcY c of
          Inl e \<Rightarrow> Inl e
        | Inr v \<Rightarrow> Inr (pixel_index newWidth (channels input) x y c, v))"

text \<open>
  \<^verbatim>\<open>resizeImage\<close>. A negative \<^verbatim>\<open>int\<close> given to \<^verbatim>\<open>resize\<close> is a size beyond
  \<^verbatim>\<open>max_size()\<close>: \<open>LengthError\<close>. The two ratios are used only inside the loops, which
  run only when both target dimensions are positive; so the quotient by a zero target
  dimension (an infinity in C++, 0 in HOL) never reaches the result.
\<close>

definition resizeImage :: "ImageData \<Rightarrow> int \<Rightarrow> int \<Rightarrow> error + ImageData" where
  "resizeImage input newWidth newHeight =
     (let n = i32 (i32 (newWidth * newHeight) * channels input) in
      if n < 0 then Inl LengthError
      else
        let xRatio = fdiv (i2f (width input)) (i2f newWidth);
            yRatio = fdiv (i2f (height input)) (i2f newHeight)
        in case store_all (resize_pixel input newWidth xRatio yRatio)
                  (loop_nest newHeight newWidth (channels input)) (replicate (nat n) 0) of
             Inl e \<Rightarrow> Inl e
           | Inr d \<Rightarrow> Inr \<lparr>data = d, width = newWidth, height = newHeight,
                           channels = channels input\<rparr>)"

text \<open>
  \<^verbatim>\<open>convertToGrayscale\<close>. \<open>gray_value\<close> is \<^verbatim>\<open>0.299f * r + 0.587f * g + 0.114f * b\<close>: the
  literals are the binary32 values nearest to the decimals, and the sum associates to
  the left.
\<close>

definition gray_value :: "byte \<Rightarrow> byte \<Rightarrow> byte \<Rightarrow> rat" where
  "gray_value r g b =
     fadd (fadd (fmul (f32 (299 / 1000)) (u8f r)) (fmul (f32 (587 / 1000)) (u8f g)))
          (fmul (f32 (114 / 1000)) (u8f b))"

definition gray_pixel :: "ImageData \<Rightarrow> int \<Rightarrow> error + int \<times> byte" where
  "gray_pixel input i =
     (if channels input \<ge> 3 then
        case vec_at (data input) (i32 (i * channels input)) of Inl e \<Rightarrow> Inl e | Inr r \<Rightarrow>
        case vec_at (data input) (i32 (i32 (i * channels input) + 1)) of Inl e \<Rightarrow> Inl e | Inr g \<Rightarrow>
        case vec_at (data input) (i32 (i32 (i * channels input) + 2)) of Inl e \<Rightarrow> Inl e | Inr b \<Rightarrow>
          Inr (i, f2u8 (gray_value r g b))
      else
        case vec_at (data input) (i32 (i * channels input)) of Inl e \<Rightarrow> Inl e | Inr v \<Rightarrow>
          Inr (i, v))"

definition convertToGrayscale :: "ImageData \<Rightarrow> error + ImageData" where
  "convertToGrayscale input =
     (let n = i32 (width input * height input) in
      if n < 0 then Inl LengthError
      else case store_all (gray_pixel input) [0..n - 1] (replicate (nat n) 0) of
             Inl e \<Rightarrow> Inl e
           | Inr d \<Rightarrow> Inr \<lparr>data = d, width = width input, height = height input, channels = 1\<rparr>)"

text \<open>
  The dimension computation of \<^verbatim>\<open>ProcessImage\<close> (the specification's
  \<open>computeTargetDimensions\<close>): clamp the width, then the height. The model is the C++
  computation for a source height other than 0 (the parser never returns height 0);
  the quotient by 0 is an infinity or NaN in C++ and 0 in HOL.
\<close>

definition computeTargetDimensions :: "int \<Rightarrow> int \<Rightarrow> int \<Rightarrow> int \<Rightarrow> int \<times> int" where
  "computeTargetDimensions srcW srcH maxWidth maxHeight =
     (let aspectRatio = fdiv (i2f srcW) (i2f srcH);
          (newWidth, newHeight) =
             (if srcW > maxWidth then (maxWidth, f2i (fdiv (i2f maxWidth) aspectRatio))
              else (srcW, srcH));
          (newWidth, newHeight) =
             (if newHeight > maxHeight then (f2i (fmul (i2f maxHeight) aspectRatio), maxHeight)
              else (newWidth, newHeight))
      in (newWidth, newHeight))"

text \<open>
  \<^verbatim>\<open>Napi::Number::Int32Value\<close> of an integral JavaScript number: its low 32 bits, read as
  a signed \<^verbatim>\<open>int\<close>. (A fractional number is truncated first; the bounds are taken to be
  integral.)
\<close>

definition Int32Value :: "int \<Rightarrow> int" where
  "Int32Value v = i32 v"

text \<open>
  \<^verbatim>\<open>ProcessImage\<close>: read the two bounds, parse, compute the target size, resize when it
  differs (\<open>dimensions_changed\<close> is the condition of that \<^verbatim>\<open>if\<close>), convert to grayscale,
  encode. Every C++ exception is caught and becomes a JavaScript exception.
\<close>

definition dimensions_changed :: "int \<Rightarrow> int \<Rightarrow> ImageData \<Rightarrow> bool" where
  "dimensions_changed newWidth newHeight inputImage =
     (newWidth \<noteq> width inputImage \<or> newHeight \<noteq> height inputImage)"

definition ProcessImage :: "byte list \<Rightarrow> int \<Rightarrow> int \<Rightarrow> error + byte list" where
  "ProcessImage inputBuffer maxWidthArg maxHeightArg =
     (let maxWidth = Int32Value maxWidthArg; maxHeight = Int32Value maxHeightArg
      in case parseSimpleImage inputBuffer of
           Inl e \<Rightarrow> Inl e
         | Inr inputImage \<Rightarrow>
             (case computeTargetDimensions (width inputImage) (height inputImage)
                     maxWidth maxHeight of
                (newWidth, newHeight) \<Rightarrow>
                  (case (if dimensions_changed newWidth newHeight inputImage
                         then resizeImage inputImage newWidth newHeight else Inr inputImage) of
                     Inl e \<Rightarrow> Inl e
                   | Inr resizedImage \<Rightarrow>
                       (case convertToGrayscale resizedImage of
                          Inl e \<Rightarrow> Inl e
                        | Inr grayscaleImage \<Rightarrow> Inr (encodeAsJPEG grayscaleImage)))))"

text \<open>A 1000 x 1 RGB strip: a valid PixelBuffer, wider than the worker's default bound.\<close>

definition strip_1000x1 :: ImageData where
  "strip_1000x1 = \<lparr>data = replicate 3000 7, width = 1000, height = 1, channels = 3\<rparr>"

section \<open>Task distributor\<close>

text \<open>
  \<^verbatim>\<open>index.js\<close> runs on Node's single-threaded event loop: every callback runs to its end
  before the next event is taken, and the continuation of an \<^verbatim>\<open>await\<close> runs right after
  the callback that settled the promise. The distributor is therefore a state machine
  over three kinds of events: a worker's \<^verbatim>\<open>message\<close>, a worker's \<^verbatim>\<open>error\<close>, and the
  firing of a job's 30-second timer. Which events arrive, and in which order, is the
  environment's choice.

  A worker's reply (\<^verbatim>\<open>worker.js\<close>, \<^verbatim>\<open>ImageWorker.processImage\<close>): the success record or the
  failure record. The fields the distributor never reads (\<^verbatim>\<open>filename\<close>,
  \<^verbatim>\<open>compressionRatio\<close>) are left out; the reply of the \<^verbatim>\<open>uncaughtException\<close> handler
  has no \<^verbatim>\<open>inputPath\<close>.
\<close>

datatype reply =
  Success (inputPath: string) (outputPath: string) (inputSize: nat) (outputSize: nat)
| Failure (errorMessage: string) (failedPath: "string option")

text \<open>A promise is pending, resolved with the reply, or rejected with an error: the timeout
  error, the \<^verbatim>\<open>result.error\<close> of a failure reply, or the worker's \<^verbatim>\<open>error\<close> event.\<close>

datatype rejection = WorkerTimeout nat string | ReplyError string | WorkerError string

datatype settled = Pending | Resolved reply | Rejected rejection

text \<open>One call of \<^verbatim>\<open>processImageWithWorker\<close>: its promise and its timer.\<close>

record Job =
  imageFile :: string
  workerIndex :: nat
  promise :: settled
  timerArmed :: bool

text \<open>
  The \<^verbatim>\<open>ImageProcessor\<close> object. \<open>listeners ! w\<close> are the jobs whose \<^verbatim>\<open>messageHandler\<close>
  and \<^verbatim>\<open>errorHandler\<close> are registered on worker \<open>w\<close> (the two are always added and removed
  together), in the order of registration; \<open>awaiting ! w\<close> is the job whose promise the
  loop \<^verbatim>\<open>processWorkerQueue\<close> of worker \<open>w\<close> awaits, \<open>None\<close> once the loop has ended;
  \<open>posted\<close> logs \<^verbatim>\<open>worker.postMessage\<close>.
\<close>

record Distributor =
  activeJobs :: int
  completedJobs :: int
  totalJobs :: nat
  processedImages :: "string list"
  pendingQueue :: "string list"
  jobs :: "Job list"
  listeners :: "nat list list"
  awaiting :: "nat option list"
  posted :: "(nat \<times> string) list"

datatype event = Message nat reply | ErrorEvent nat string | TimerFired nat

text \<open>The executor of the promise in \<^verbatim>\<open>processImageWithWorker\<close>: it runs at once.\<close>

definition processImageWithWorker :: "nat \<Rightarrow> string \<Rightarrow> Distributor \<Rightarrow> Distributor" where
  "processImageWithWorker w f st =
     st\<lparr>activeJobs := activeJobs st + 1,
        jobs := jobs st @ [\<lparr>imageFile = f, workerIndex = w, promise = Pending, timerArmed = True\<rparr>],
        listeners := (listeners st)[w := listeners st ! w @ [length (jobs st)]],
        posted := posted st @ [(w, f)]\<rparr>"

text \<open>\<^verbatim>\<open>processWorkerQueue\<close> from the head of its \<^verbatim>\<open>while\<close> loop to the next \<^verbatim>\<open>await\<close>, or to
  the end of the loop (an empty queue, or a falsy file name).\<close>

definition processWorkerQueue :: "nat \<Rightarrow> Distributor \<Rightarrow> Distributor" where
  "processWorkerQueue w st =
     (case pendingQueue st of
        [] \<Rightarrow> st\<lparr>awaiting := (awaiting st)[w := None]\<rparr>
      | f # rest \<Rightarrow>
          if f = [] then st\<lparr>pendingQueue := rest, awaiting := (awaiting st)[w := None]\<rparr>
          else (processImageWithWorker w f (st\<lparr>pendingQueue := rest\<rparr>))
                 \<lparr>awaiting := (awaiting st)[w := Some (length (jobs st))]\<rparr>)"

text \<open>\<^verbatim>\<open>resolve\<close> and \<^verbatim>\<open>reject\<close>: only the first call settles a promise.\<close>

definition settle :: "nat \<Rightarrow> settled \<Rightarrow> Distributor \<Rightarrow> Distributor" where
  "settle j r st =
     (if promise (jobs st ! j) = Pending
      then st\<lparr>jobs := (jobs st)[j := (jobs st ! j)\<lparr>promise := r\<rparr>]\<rparr> else st)"

definition clearTimeout :: "nat \<Rightarrow> Distributor \<Rightarrow> Distributor" where
  "clearTimeout j st = st\<lparr>jobs := (jobs st)[j := (jobs st ! j)\<lparr>timerArmed := False\<rparr>]\<rparr>"

definition removeHandlers :: "nat \<Rightarrow> Distributor \<Rightarrow> Distributor" where
  "removeHandlers j st =
     (let w = workerIndex (jobs st ! j)
      in st\<lparr>listeners := (listeners st)[w := removeAll j (listeners st ! w)]\<rparr>)"

text \<open>The three callbacks. Only \<^verbatim>\<open>messageHandler\<close> and \<^verbatim>\<open>errorHandler\<close> remove the
  handlers and decrement \<^verbatim>\<open>activeJobs\<close>; the timeout callback only rejects.\<close>

definition messageHandler :: "nat \<Rightarrow> reply \<Rightarrow> Distributor \<Rightarrow> Distributor" where
  "messageHandler j result st =
     (let st1 = removeHandlers j (clearTimeout j st);
          st2 = st1\<lparr>activeJobs := activeJobs st1 - 1, completedJobs := completedJobs st1 + 1\<rparr>
      in case result of
           Success ip op isz osz \<Rightarrow>
             settle j (Resolved result) (st2\<lparr>processedImages := processedImages st2 @ [op]\<rparr>)
         | Failure msg ip \<Rightarrow> settle j (Rejected (ReplyError msg)) st2)"

definition errorHandler :: "nat \<Rightarrow> string \<Rightarrow> Distributor \<Rightarrow> Distributor" where
  "errorHandler j err st =
     (let st1 = removeHandlers j (clearTimeout j st);
          st2 = st1\<lparr>activeJobs := activeJobs st1 - 1\<rparr>
      in settle j (Rejected (WorkerError err)) st2)"

definition timeoutCallback :: "nat \<Rightarrow> Distributor \<Rightarrow> Distributor" where
  "timeoutCallback j st =
     settle j (Rejected (WorkerTimeout (workerIndex (jobs st ! j)) (imageFile (jobs st ! j))))
       (clearTimeout j st)"

text \<open>The continuation of the \<^verbatim>\<open>await\<close> in the loop of worker \<open>w\<close>.\<close>

definition resume :: "nat \<Rightarrow> Distributor \<Rightarrow> Distributor" where
  "resume w st =
     (case awaiting st ! w of
        None \<Rightarrow> st
      | Some j \<Rightarrow> if promise (jobs st ! j) = Pending then st else processWorkerQueue w st)"

text \<open>One event: \<^verbatim>\<open>emit\<close> calls every handler that was registered when the event arrived.\<close>

definition deliver :: "event \<Rightarrow> Distributor \<Rightarrow> Distributor" where
  "deliver ev st =
     (case ev of
        Message w result \<Rightarrow>
          if w < length (listeners st)
          then resume w (fold (\<lambda>j. messageHandler j result) (listeners st ! w) st) else st
      | ErrorEvent w err \<Rightarrow>
          if w < length (listeners st)
          then resume w (fold (\<lambda>j. errorHandler j err) (listeners st ! w) st) else st
      | TimerFired j \<Rightarrow>
          if j < length (jobs st) \<and> timerArmed (jobs st ! j)
          then resume (workerIndex (jobs st ! j)) (timeoutCallback j st) else st)"

text \<open>
  \<^verbatim>\<open>processImageQueue\<close>: every worker loop starts in turn and runs to its first
  \<^verbatim>\<open>await\<close>; once every loop has ended, \<^verbatim>\<open>Promise.all\<close> resolves and the call returns
  \<^verbatim>\<open>this.processedImages\<close>. \<open>None\<close>: the events given do not end every loop.
\<close>

definition start :: "nat \<Rightarrow> string list \<Rightarrow> Distributor" where
  "start workerCount imageFiles =
     fold processWorkerQueue [0..<workerCount]
       \<lparr>activeJobs = 0, completedJobs = 0, totalJobs = length imageFiles, processedImages = [],
        pendingQueue = imageFiles, jobs = [], listeners = replicate workerCount [],
        awaiting = replicate workerCount None, posted = []\<rparr>"

definition finished :: "Distributor \<Rightarrow> bool" where
  "finished st = list_all (\<lambda>a. a = None) (awaiting st)"

fun run :: "Distributor \<Rightarrow> event list \<Rightarrow> Distributor" where
  "run st [] = st"
| "run st (ev # evs) = (if finished st then st else run (deliver ev st) evs)"

definition processImageQueue :: "nat \<Rightarrow> string list \<Rightarrow> event list \<Rightarrow> string list option" where
  "processImageQueue workerCount imageFiles evs =
     (let st = run (start workerCount imageFiles) evs
      in if finished st then Some (processedImages st) else None)"

text \<open>Two replies: the success reply of a job on \<^verbatim>\<open>in/a.jpg\<close>, and a failure reply.\<close>

definition late_reply :: reply where
  "late_reply = Success ''in/a.jpg'' ''out/a.jpg'' 5000 1200"




text \<open>
  The output path that a settled job stands for: the \<^verbatim>\<open>outputPath\<close> of the success reply
  its promise was resolved with, nothing for a rejected or pending job. \<open>success_paths\<close>
  collects them over the jobs, in the order of dispatch.
\<close>

definition recorded_path :: "settled \<Rightarrow> string list" where
  "recorded_path p =
     (case p of
        Resolved result \<Rightarrow>
          (case result of Success ip op isz osz \<Rightarrow> [op] | Failure msg ip \<Rightarrow> [])
      | _ \<Rightarrow> [])"

definition success_paths :: "Job list \<Rightarrow> string list" where
  "success_paths js = concat (map (\<lambda>j. recorded_path (promise j)) js)"




section \<open>Notions of the specification and example inputs\<close>

text \<open>The byte that \<^verbatim>\<open>convertToGrayscale\<close> stores for pixel \<open>i\<close> of a buffer with \<open>ch\<close>
  channels; and the invariant of the specification's PixelBuffer.\<close>

definition gray_expected :: "byte list \<Rightarrow> int \<Rightarrow> int \<Rightarrow> byte" where
  "gray_expected d ch i =
     (if ch \<ge> 3 then f2u8 (gray_value (d ! nat (i * ch)) (d ! nat (i * ch + 1)) (d ! nat (i * ch + 2)))
      else d ! nat (i * ch))"

definition buffer_invariant :: "ImageData \<Rightarrow> bool" where
  "buffer_invariant buf = (int (length (data buf)) = width buf * height buf * channels buf)"

text \<open>
  The specification's luminance, in exact arithmetic: \<open>0.299 R + 0.587 G + 0.114 B\<close>;
  \<open>source_rgb src i\<close> are the first three channels of pixel \<open>i\<close> of \<open>src\<close>.
\<close>

definition source_rgb :: "ImageData \<Rightarrow> nat \<Rightarrow> byte \<times> byte \<times> byte" where
  "source_rgb src i =
     (data src ! (i * nat (channels src)), data src ! (i * nat (channels src) + 1),
      data src ! (i * nat (channels src) + 2))"

definition luminance :: "byte \<Rightarrow> byte \<Rightarrow> byte \<Rightarrow> rat" where
  "luminance r g b = 299 / 1000 * u8f r + 587 / 1000 * u8f g + 114 / 1000 * u8f b"

text \<open>One red, one green and one blue pixel.\<close>

definition rgb_strip :: ImageData where
  "rgb_strip = \<lparr>data = [255, 0, 0, 0, 255, 0, 0, 0, 255], width = 3, height = 1, channels = 3\<rparr>"

text \<open>A strip of \<open>2^24 + 2\<close> one-channel pixels, all 0 but the last, which is 1.\<close>

definition wide_strip :: ImageData where
  "wide_strip = \<lparr>data = replicate 16777217 0 @ [1], width = 16777218, height = 1, channels = 1\<rparr>"

text \<open>The data of a 65536 x 32769 one-channel image: \<open>2^31 + 2^16\<close> zero bytes.\<close>

definition tall_image :: "byte list" where
  "tall_image = replicate (65536 * 32769) 0"

section \<open>Properties of the integer model\<close>

lemma i32_id: "- (2 ^ 31) \<le> v \<Longrightarrow> v < 2 ^ 31 \<Longrightarrow> i32 v = v"
  by (simp add: i32_def signed_take_bit_int_eq_self)

lemma size_t_id: "0 \<le> v \<Longrightarrow> v < 2 ^ 64 \<Longrightarrow> size_t v = nat v"
  by (simp add: size_t_def take_bit_int_eq_self)

lemma and_255: "(x::int) AND 255 = take_bit 8 x"
  by (simp add: take_bit_eq_mask mask_eq_exp_minus_1)

section \<open>Properties of the float model\<close>

lemma bitlen_pos: "0 < n \<Longrightarrow> 1 \<le> bitlen n"
  using bitlen_bounds [of n] bitlen_nonneg [of n]
  by (cases "bitlen n = 0") auto

lemma ilog2_bounds:
  assumes "x \<noteq> 0"
  shows "2 powi (ilog2 x) \<le> \<bar>x\<bar> \<and> \<bar>x\<bar> < 2 powi (ilog2 x + 1)"
proof (cases "1 \<le> \<bar>x\<bar>")
  case True
  define n where "n = \<lfloor>\<bar>x\<bar>\<rfloor>"
  have n1: "1 \<le> n" using True by (simp add: n_def le_floor_iff)
  have b: "2 ^ nat (bitlen n - 1) \<le> n" "n < 2 ^ nat (bitlen n)"
    using bitlen_bounds [of n] n1 by auto
  have bl: "1 \<le> bitlen n" using bitlen_pos [of n] n1 by simp
  have e: "ilog2 x = bitlen n - 1" using True by (simp add: ilog2_def n_def)
  have "(2::rat) powi (bitlen n - 1) = 2 ^ nat (bitlen n - 1)"
    using bl by (simp add: power_int_nonneg_exp)
  also have "\<dots> = of_int (2 ^ nat (bitlen n - 1))" by simp
  also have "\<dots> \<le> of_int n" using b(1) by (simp only: of_int_le_iff)
  also have "\<dots> \<le> \<bar>x\<bar>" by (simp add: n_def)
  finally have lo: "2 powi (ilog2 x) \<le> \<bar>x\<bar>" by (simp add: e)
  have "n + 1 \<le> 2 ^ nat (bitlen n)" using b(2) by simp
  then have "(of_int (n + 1) :: rat) \<le> of_int (2 ^ nat (bitlen n))"
    by (simp only: of_int_le_iff)
  moreover have "\<bar>x\<bar> < of_int (n + 1)" unfolding n_def by linarith
  moreover have "(2::rat) powi (bitlen n) = 2 ^ nat (bitlen n)"
    using bl by (simp add: power_int_nonneg_exp)
  ultimately have hi: "\<bar>x\<bar> < 2 powi (ilog2 x + 1)" by (simp add: e)
  from lo hi show ?thesis by simp
next
  case False
  define y where "y = 1 / \<bar>x\<bar>"
  define m where "m = \<lceil>y\<rceil> - 1"
  have x0: "0 < \<bar>x\<bar>" using assms by simp
  have y1: "1 < y" using False x0 by (simp add: y_def)
  have xy: "\<bar>x\<bar> = 1 / y" by (simp add: y_def)
  have m1: "1 \<le> m" using y1 by (simp add: m_def less_ceiling_iff)
  have my: "of_int m < y" "y \<le> of_int m + 1"
    unfolding m_def using ceiling_correct [of y] by simp_all
  have b: "2 ^ nat (bitlen m - 1) \<le> m" "m < 2 ^ nat (bitlen m)"
    using bitlen_bounds [of m] m1 by auto
  have bl: "1 \<le> bitlen m" using bitlen_pos [of m] m1 by simp
  have e: "ilog2 x = - bitlen m" using False by (simp add: ilog2_def m_def y_def)
  have p1: "(2::rat) powi (- bitlen m) = 1 / 2 ^ nat (bitlen m)"
    using bl by (simp add: power_int_minus_divide power_int_nonneg_exp)
  have p2: "(2::rat) powi (- bitlen m + 1) = 1 / 2 ^ nat (bitlen m - 1)"
  proof -
    have "- bitlen m + 1 = - (bitlen m - 1)" by simp
    then show ?thesis using bl
      by (simp only: power_int_minus_divide) (simp add: power_int_nonneg_exp)
  qed
  have "m + 1 \<le> 2 ^ nat (bitlen m)" using b(2) by simp
  then have "(of_int (m + 1) :: rat) \<le> of_int (2 ^ nat (bitlen m))"
    by (simp only: of_int_le_iff)
  with my(2) have yle: "y \<le> 2 ^ nat (bitlen m)" by simp
  have "(2::rat) ^ nat (bitlen m - 1) \<le> of_int m"
    using b(1) by simp
  with my(1) have ygt: "2 ^ nat (bitlen m - 1) < y" by linarith
  have y0: "0 < y" using y1 by simp
  have lo: "2 powi (ilog2 x) \<le> \<bar>x\<bar>"
    unfolding e p1 xy using yle y0 by (simp add: frac_le)
  have hi: "\<bar>x\<bar> < 2 powi (ilog2 x + 1)"
    unfolding e p2 xy using ygt y0 by (simp add: frac_less2)
  from lo hi show ?thesis by simp
qed

lemma round_even_err: "\<bar>of_int (round_even t) - t\<bar> \<le> 1 / 2"
proof -
  have "of_int \<lfloor>t\<rfloor> \<le> t" "t < of_int \<lfloor>t\<rfloor> + 1" by linarith+
  then show ?thesis
    by (auto simp: round_even_def Let_def)
qed

lemma round_even_of_int [simp]: "round_even (of_int n) = n"
  by (simp add: round_even_def)

lemma round_even_ge: "of_int n \<le> t \<Longrightarrow> n \<le> round_even t"
proof -
  assume "of_int n \<le> t"
  then have "n \<le> \<lfloor>t\<rfloor>" by (simp add: le_floor_iff)
  then show ?thesis by (auto simp: round_even_def Let_def)
qed

lemma round_even_le: "t \<le> of_int n \<Longrightarrow> round_even t \<le> n"
proof -
  assume a: "t \<le> of_int n"
  show ?thesis
  proof (cases "t = of_int n")
    case True then show ?thesis by simp
  next
    case False
    with a have "t < of_int n" by simp
    then have "\<lfloor>t\<rfloor> < n" by (simp add: floor_less_iff)
    then show ?thesis by (auto simp: round_even_def Let_def)
  qed
qed

lemma round_even_mono: "s \<le> t \<Longrightarrow> round_even s \<le> round_even t"
proof -
  assume st: "s \<le> t"
  have e: "\<bar>of_int (round_even t) - t\<bar> \<le> 1 / 2" by (rule round_even_err)
  show ?thesis
  proof (cases "\<lfloor>s\<rfloor> < \<lfloor>t\<rfloor>")
    case True
    then have "\<lfloor>s\<rfloor> + 1 \<le> \<lfloor>t\<rfloor>" by simp
    moreover have "round_even s \<le> \<lfloor>s\<rfloor> + 1" by (auto simp: round_even_def Let_def)
    moreover have "\<lfloor>t\<rfloor> \<le> round_even t" by (auto simp: round_even_def Let_def)
    ultimately show ?thesis by linarith
  next
    case False
    with st have "\<lfloor>s\<rfloor> = \<lfloor>t\<rfloor>" using floor_mono [of s t] by linarith
    then show ?thesis using st by (auto simp: round_even_def Let_def)
  qed
qed

lemma round_even_minus: "round_even (- t) = - round_even t"
proof (cases "t = of_int \<lfloor>t\<rfloor>")
  case True
  then have "round_even t = \<lfloor>t\<rfloor>" by (metis round_even_of_int)
  moreover have "- t = of_int (- \<lfloor>t\<rfloor>)" using True by simp
  then have "round_even (- t) = - \<lfloor>t\<rfloor>" by (metis round_even_of_int)
  ultimately show ?thesis by simp
next
  case False
  then have f: "\<lfloor>- t\<rfloor> = - \<lfloor>t\<rfloor> - 1"
    by (metis ceiling_altdef ceiling_def add_diff_cancel_right' minus_diff_eq minus_minus uminus_add_conv_diff)
  show ?thesis
    using False by (auto simp: round_even_def Let_def f)
qed


lemma f32_quantum: "f32 x = (if x = 0 then 0 else of_int (round_even (x / quantum x)) * quantum x)"
  by (simp add: f32_def quantum_def Let_def)

lemma quantum_pos: "0 < quantum x"
  by (simp add: quantum_def)

lemma f32_0 [simp]: "f32 0 = 0"
  by (simp add: f32_def)

lemma ilog2_minus [simp]: "ilog2 (- x) = ilog2 x"
  by (simp add: ilog2_def)

lemma quantum_minus [simp]: "quantum (- x) = quantum x"
  by (simp add: quantum_def)

lemma f32_minus: "f32 (- x) = - f32 x"
  by (simp add: f32_quantum round_even_minus)

lemma powi2_less_cancel: "(2::rat) powi a < 2 powi b \<Longrightarrow> a < b"
  using power_int_increasing [of b a "2::rat"] by (cases "a < b") auto

lemma powi2_le_cancel: "(2::rat) powi a \<le> 2 powi b \<Longrightarrow> a \<le> b"
  using power_int_strict_increasing [of b a "2::rat"] by (cases "a \<le> b") auto

lemma powi2_mono: "a \<le> b \<Longrightarrow> (2::rat) powi a \<le> 2 powi b"
  by (rule power_int_increasing) auto

lemma powi2_split: "(2::rat) powi (a + b) = 2 powi a * 2 powi b"
  by (rule power_int_add) simp

lemma ilog2_unique:
  assumes lo: "2 powi e \<le> \<bar>x\<bar>" and hi: "\<bar>x\<bar> < 2 powi (e + 1)"
  shows "ilog2 x = e"
proof -
  have "0 < (2::rat) powi e" by simp
  with lo have "0 < \<bar>x\<bar>" by linarith
  then have x0: "x \<noteq> 0" by simp
  from ilog2_bounds [OF x0] have b: "2 powi (ilog2 x) \<le> \<bar>x\<bar>" "\<bar>x\<bar> < 2 powi (ilog2 x + 1)"
    by auto
  have "(2::rat) powi (ilog2 x) < 2 powi (e + 1)" using b(1) hi by linarith
  then have 1: "ilog2 x < e + 1" by (rule powi2_less_cancel)
  have "(2::rat) powi e < 2 powi (ilog2 x + 1)" using lo b(2) by linarith
  then have 2: "e < ilog2 x + 1" by (rule powi2_less_cancel)
  from 1 2 show ?thesis by simp
qed

lemma ilog2_mono:
  assumes "x \<noteq> 0" and "\<bar>x\<bar> \<le> \<bar>y\<bar>"
  shows "ilog2 x \<le> ilog2 y"
proof -
  from assms have y0: "y \<noteq> 0" by auto
  have "2 powi (ilog2 x) \<le> \<bar>x\<bar>" using ilog2_bounds [OF assms(1)] by simp
  also have "\<dots> \<le> \<bar>y\<bar>" by fact
  also have "\<dots> < 2 powi (ilog2 y + 1)" using ilog2_bounds [OF y0] by simp
  finally have "ilog2 x < ilog2 y + 1" by (rule powi2_less_cancel)
  then show ?thesis by simp
qed

lemma f32_err_quantum: "\<bar>f32 x - x\<bar> \<le> quantum x / 2"
proof (cases "x = 0")
  case True
  then show ?thesis using quantum_pos [of x] by simp
next
  case False
  let ?q = "quantum x"
  have q: "0 < ?q" by (rule quantum_pos)
  have "f32 x - x = (of_int (round_even (x / ?q)) - x / ?q) * ?q"
    using False q by (simp add: f32_quantum algebra_simps)
  then have "\<bar>f32 x - x\<bar> = \<bar>of_int (round_even (x / ?q)) - x / ?q\<bar> * ?q"
    using q by (simp add: abs_mult)
  also have "\<dots> \<le> (1 / 2) * ?q"
    using round_even_err [of "x / ?q"] q by (intro mult_right_mono) auto
  finally show ?thesis by simp
qed

lemma quantum_le:
  assumes "x \<noteq> 0" and "\<bar>x\<bar> < 2 powi k" and "- 125 \<le> k"
  shows "quantum x \<le> 2 powi (k - 24)"
proof -
  have "2 powi (ilog2 x) \<le> \<bar>x\<bar>" using ilog2_bounds [OF assms(1)] by simp
  with assms(2) have "(2::rat) powi (ilog2 x) < 2 powi k" by linarith
  then have "ilog2 x < k" by (rule powi2_less_cancel)
  with assms(3) have "max (ilog2 x) (- 126) - 23 \<le> k - 24" by simp
  then show ?thesis unfolding quantum_def by (rule powi2_mono)
qed

lemma f32_powi2: 
  assumes "- 126 \<le> k"
  shows "f32 (2 powi k) = 2 powi k"
proof -
  let ?x = "(2::rat) powi k"
  have x0: "?x \<noteq> 0" by simp
  have "?x < 2 powi (k + 1)" by (intro power_int_strict_increasing) auto
  then have e: "ilog2 ?x = k" by (intro ilog2_unique) auto
  have q: "quantum ?x = 2 powi (k - 23)" using assms by (simp add: quantum_def e)
  have "k = 23 + (k - 23)" by simp
  then have s: "?x = 2 powi 23 * 2 powi (k - 23)" by (metis powi2_split)
  then have "?x / 2 powi (k - 23) = 2 powi 23" by (simp add: field_simps)
  then have d: "?x / quantum ?x = of_int (2 ^ 23)" unfolding q by simp
  have "round_even (?x / quantum ?x) = 2 ^ 23" unfolding d by (rule round_even_of_int)
  then have "f32 ?x = of_int (2 ^ 23) * quantum ?x" using x0 by (simp add: f32_quantum)
  also have "\<dots> = ?x" unfolding q using s by simp
  finally show ?thesis .
qed

lemma f32_abs_err:
  assumes b: "\<bar>x\<bar> \<le> 2 powi k" and k: "- 125 \<le> k"
  shows "\<bar>f32 x - x\<bar> \<le> 2 powi (k - 25)"
proof -
  consider "x = 0" | "\<bar>x\<bar> = 2 powi k" | "x \<noteq> 0" "\<bar>x\<bar> < 2 powi k"
    using b by fastforce
  then show ?thesis
  proof cases
    case 1
    then show ?thesis by simp
  next
    case 2
    have p: "f32 (2 powi k) = 2 powi k" using k by (intro f32_powi2) simp
    from 2 have "x = 2 powi k \<or> x = - (2 powi k)" by (auto simp: abs_if split: if_splits)
    then have "f32 x = x" using p by (auto simp: f32_minus)
    then show ?thesis by simp
  next
    case 3
    have "\<bar>f32 x - x\<bar> \<le> quantum x / 2" by (rule f32_err_quantum)
    also have "\<dots> \<le> 2 powi (k - 24) / 2" using quantum_le [OF 3 k] by simp
    also have "\<dots> = 2 powi (k - 25)"
    proof -
      have "k - 24 = (k - 25) + 1" by simp
      then have "(2::rat) powi (k - 24) = 2 powi (k - 25) * 2 powi 1" by (metis powi2_split)
      then show ?thesis by simp
    qed
    finally show ?thesis .
  qed
qed

lemma f32_of_int:
  assumes "\<bar>n\<bar> \<le> 2 ^ 24"
  shows "f32 (of_int n) = of_int n"
proof (cases "n = 0")
  case True
  then show ?thesis by simp
next
  case False
  let ?x = "of_int n :: rat"
  have x0: "?x \<noteq> 0" using False by simp
  define e where "e = ilog2 ?x"
  have b: "2 powi e \<le> \<bar>?x\<bar>" "\<bar>?x\<bar> < 2 powi (e + 1)"
    using ilog2_bounds [OF x0] by (auto simp: e_def)
  have "1 \<le> \<bar>n\<bar>" using False by simp
  then have "(1::rat) \<le> \<bar>?x\<bar>" by (metis of_int_1 of_int_abs of_int_le_iff)
  with b(2) have "(2::rat) powi 0 < 2 powi (e + 1)" by simp
  then have e0: "0 \<le> e" using powi2_less_cancel [of 0 "e + 1"] by simp
  have "\<bar>?x\<bar> \<le> 2 ^ 24" using assms by (metis of_int_abs of_int_le_iff of_int_numeral of_int_power)
  with b(1) have "(2::rat) powi e \<le> 2 powi 24" by simp
  then have e24: "e \<le> 24" by (rule powi2_le_cancel)
  have q: "quantum ?x = 2 powi (e - 23)" using e0 by (simp add: quantum_def e_def)
  show ?thesis
  proof (cases "e = 24")
    case True
    with b(1) have "2 ^ 24 \<le> \<bar>?x\<bar>" by simp
    with \<open>\<bar>?x\<bar> \<le> 2 ^ 24\<close> have "\<bar>?x\<bar> = 2 powi 24" by simp
    then have "?x = 2 powi 24 \<or> ?x = - (2 powi 24)" by (auto simp: abs_if split: if_splits)
    moreover have "f32 (2 powi 24) = 2 powi 24" by (intro f32_powi2) simp
    ultimately show ?thesis by (auto simp: f32_minus)
  next
    case False
    with e24 have "e \<le> 23" by simp
    define j where "j = nat (23 - e)"
    have "quantum ?x = 1 / 2 ^ j"
      using \<open>e \<le> 23\<close> unfolding q j_def
      by (metis diff_ge_0_iff_ge minus_diff_eq power_int_minus_divide power_int_nonneg_exp)
    then have d: "?x / quantum ?x = of_int (n * 2 ^ j)" by simp
    have "round_even (?x / quantum ?x) = n * 2 ^ j" unfolding d by (rule round_even_of_int)
    then have "f32 ?x = of_int (n * 2 ^ j) * quantum ?x" using x0 by (simp add: f32_quantum)
    also have "\<dots> = ?x" using \<open>quantum ?x = 1 / 2 ^ j\<close> by simp
    finally show ?thesis .
  qed
qed

lemma f32_nonneg: "0 \<le> x \<Longrightarrow> 0 \<le> f32 x"
proof -
  assume "0 \<le> x"
  then have "of_int 0 \<le> x / quantum x" using quantum_pos [of x] by simp
  then have "0 \<le> round_even (x / quantum x)" by (rule round_even_ge)
  then show ?thesis using quantum_pos [of x] by (simp add: f32_quantum)
qed


lemma f32_upper:
  assumes "0 < x"
  shows "f32 x \<le> 2 powi (max (ilog2 x) (- 126) + 1)"
proof -
  define e where "e = max (ilog2 x) (- 126)"
  have x0: "x \<noteq> 0" using assms by simp
  have q: "quantum x = 2 powi (e - 23)" by (simp add: quantum_def e_def)
  have s: "(2::rat) powi (e + 1) = of_int (2 ^ 24) * 2 powi (e - 23)"
  proof -
    have "e + 1 = 24 + (e - 23)" by simp
    then have "(2::rat) powi (e + 1) = 2 powi 24 * 2 powi (e - 23)" by (metis powi2_split)
    then show ?thesis by simp
  qed
  have "x < 2 powi (ilog2 x + 1)" using ilog2_bounds [OF x0] assms by simp
  also have "\<dots> \<le> 2 powi (e + 1)" by (intro powi2_mono) (simp add: e_def)
  finally have "x < of_int (2 ^ 24) * quantum x" by (simp only: s q)
  then have "x / quantum x \<le> of_int (2 ^ 24)"
    using quantum_pos [of x] by (simp add: pos_divide_le_eq)
  then have "round_even (x / quantum x) \<le> 2 ^ 24" by (rule round_even_le)
  then have "(of_int (round_even (x / quantum x)) :: rat) \<le> of_int (2 ^ 24)"
    by (simp only: of_int_le_iff)
  then have "of_int (round_even (x / quantum x)) * quantum x \<le> of_int (2 ^ 24) * quantum x"
    using quantum_pos [of x] by (intro mult_right_mono) auto
  then show ?thesis using x0 unfolding e_def [symmetric] s by (simp add: f32_quantum q)
qed

lemma f32_lower:
  assumes "0 < x" and "- 126 \<le> ilog2 x"
  shows "2 powi (ilog2 x) \<le> f32 x"
proof -
  define e where "e = ilog2 x"
  have x0: "x \<noteq> 0" using assms by simp
  have q: "quantum x = 2 powi (e - 23)" using assms(2) by (simp add: quantum_def e_def)
  have s: "(2::rat) powi e = of_int (2 ^ 23) * 2 powi (e - 23)"
  proof -
    have "e = 23 + (e - 23)" by simp
    then have "(2::rat) powi e = 2 powi 23 * 2 powi (e - 23)" by (metis powi2_split)
    then show ?thesis by simp
  qed
  have "2 powi e \<le> x" using ilog2_bounds [OF x0] assms(1) by (simp add: e_def)
  then have "of_int (2 ^ 23) * quantum x \<le> x" by (simp only: s q)
  then have "of_int (2 ^ 23) \<le> x / quantum x"
    using quantum_pos [of x] by (simp add: pos_le_divide_eq)
  then have "2 ^ 23 \<le> round_even (x / quantum x)" by (rule round_even_ge)
  then have "(of_int (2 ^ 23) :: rat) \<le> of_int (round_even (x / quantum x))"
    by (simp only: of_int_le_iff)
  then have "of_int (2 ^ 23) * quantum x \<le> of_int (round_even (x / quantum x)) * quantum x"
    using quantum_pos [of x] by (intro mult_right_mono) auto
  then show ?thesis using x0 unfolding e_def [symmetric] s by (simp add: f32_quantum q)
qed

lemma f32_mono_pos:
  assumes "0 < x" and "x \<le> y"
  shows "f32 x \<le> f32 y"
proof -
  have x0: "x \<noteq> 0" and y0: "y \<noteq> 0" and ypos: "0 < y" using assms by auto
  have le: "ilog2 x \<le> ilog2 y" using assms by (intro ilog2_mono) auto
  show ?thesis
  proof (cases "max (ilog2 x) (- 126) = max (ilog2 y) (- 126)")
    case True
    then have q: "quantum x = quantum y" by (simp add: quantum_def)
    have "x / quantum y \<le> y / quantum y"
      using assms(2) quantum_pos [of y] by (simp add: divide_right_mono)
    then have "round_even (x / quantum y) \<le> round_even (y / quantum y)"
      by (rule round_even_mono)
    then have "(of_int (round_even (x / quantum y)) :: rat) \<le> of_int (round_even (y / quantum y))"
      by (simp only: of_int_le_iff)
    then have "of_int (round_even (x / quantum y)) * quantum y
                 \<le> of_int (round_even (y / quantum y)) * quantum y"
      using quantum_pos [of y] by (intro mult_right_mono) auto
    then show ?thesis using x0 y0 by (simp add: f32_quantum q)
  next
    case False
    with le have lt: "max (ilog2 x) (- 126) < ilog2 y" and big: "- 126 \<le> ilog2 y" by auto
    have "f32 x \<le> 2 powi (max (ilog2 x) (- 126) + 1)" using assms(1) by (rule f32_upper)
    also have "\<dots> \<le> 2 powi (ilog2 y)" using lt by (intro powi2_mono) linarith
    also have "\<dots> \<le> f32 y" using ypos big by (rule f32_lower)
    finally show ?thesis .
  qed
qed

lemma f32_mono:
  assumes "x \<le> y"
  shows "f32 x \<le> f32 y"
proof -
  consider "0 < x" | "x \<le> 0" "0 \<le> y" | "y < 0" by linarith
  then show ?thesis
  proof cases
    case 1
    then show ?thesis using assms by (rule f32_mono_pos)
  next
    case 2
    have "0 \<le> f32 (- x)" using 2(1) by (intro f32_nonneg) simp
    then have "f32 x \<le> 0" by (simp add: f32_minus)
    also have "\<dots> \<le> f32 y" using 2(2) by (rule f32_nonneg)
    finally show ?thesis .
  next
    case 3
    have "f32 (- y) \<le> f32 (- x)" using 3 assms by (intro f32_mono_pos) auto
    then show ?thesis by (simp add: f32_minus)
  qed
qed

section \<open>Properties of the wire codec\<close>

lemma expectedSize_exact:
  assumes w: "0 < w" and h: "0 < h" and c: "0 < c" and fit: "12 + w * h * c < 2 ^ 31"
  shows "size_t (i32 (12 + i32 (i32 (w * h) * c))) = nat (12 + w * h * c)"
proof -
  have wh0: "0 < w * h" using w h by simp
  have n0: "0 < w * h * c" using wh0 c by simp
  have "w * h * 1 \<le> w * h * c" using c wh0 by (intro mult_left_mono) auto
  then have whn: "w * h \<le> w * h * c" by simp
  have iwh: "i32 (w * h) = w * h" using wh0 whn fit by (intro i32_id) auto
  have in': "i32 (w * h * c) = w * h * c" using n0 fit by (intro i32_id) auto
  have ie: "i32 (12 + w * h * c) = 12 + w * h * c" using n0 fit by (intro i32_id) auto
  have "size_t (12 + w * h * c) = nat (12 + w * h * c)" using n0 fit by (intro size_t_id) auto
  then show ?thesis by (simp add: iwh in' ie)
qed

lemma readInt_writeInt: "readInt (a @ writeInt v @ rest) (length a) = i32 v"
  unfolding readInt_def writeInt_def i32_def and_255
  apply (simp add: uint_word_of_int_eq nth_append)
  apply (rule bit_eqI)
  apply (auto simp: bit_simps)
   apply (case_tac "16 \<le> n"; simp)
  apply (case_tac "16 \<le> min 31 n"; case_tac "24 \<le> min 31 n"; simp)
  done

lemma length_writeInt: "length (writeInt v) = 4"
  by (simp add: writeInt_def)

lemma readInt_encode:
  "readInt (encodeAsJPEG b) 0 = i32 (width b)"
  "readInt (encodeAsJPEG b) 4 = i32 (height b)"
  "readInt (encodeAsJPEG b) 8 = i32 (channels b)"
proof -
  show "readInt (encodeAsJPEG b) 0 = i32 (width b)"
    using readInt_writeInt [of "[]" "width b"] by (simp add: encodeAsJPEG_def)
  show "readInt (encodeAsJPEG b) 4 = i32 (height b)"
    using readInt_writeInt [of "writeInt (width b)" "height b"]
    by (simp add: encodeAsJPEG_def length_writeInt)
  show "readInt (encodeAsJPEG b) 8 = i32 (channels b)"
    using readInt_writeInt [of "writeInt (width b) @ writeInt (height b)" "channels b" "data b"]
    by (simp add: encodeAsJPEG_def length_writeInt)
qed

lemma length_encode: "length (encodeAsJPEG b) = 12 + length (data b)"
  by (simp add: encodeAsJPEG_def length_writeInt)

lemma drop_encode: "drop 12 (encodeAsJPEG b) = data b"
  by (simp add: encodeAsJPEG_def length_writeInt)

lemma encode_huge_gray:
  "encodeAsJPEG huge_gray = [0, 1, 0, 0, 0, 0, 128, 0, 0, 0, 0, 1] @ replicate (2 ^ 31) 0"
  by (simp add: encodeAsJPEG_def huge_gray_def writeInt_def)

lemma parse_encode:
  assumes v: "valid_PixelBuffer buf"
    and fit: "12 + width buf * height buf * channels buf < 2 ^ 31"
  shows "parseSimpleImage (encodeAsJPEG buf) = Inr buf"
proof -
  let ?n = "width buf * height buf * channels buf"
  from v have w: "1 \<le> width buf" and h: "1 \<le> height buf"
    and c: "1 \<le> channels buf" "channels buf \<le> 4"
    and len: "int (length (data buf)) = ?n"
    and wb: "width buf < 2 ^ 31" and hb: "height buf < 2 ^ 31"
    by (simp_all add: valid_PixelBuffer_def)
  have n0: "0 \<le> ?n" using len by linarith
  have wh0: "0 \<le> width buf * height buf" using w h by simp
  have "width buf * height buf * 1 \<le> ?n"
    using c(1) wh0 by (intro mult_left_mono) auto
  then have whn: "width buf * height buf \<le> ?n" by simp
  have iw: "i32 (width buf) = width buf" using w wb by (intro i32_id) auto
  have ih: "i32 (height buf) = height buf" using h hb by (intro i32_id) auto
  have ic: "i32 (channels buf) = channels buf" using c by (intro i32_id) auto
  have iwh: "i32 (width buf * height buf) = width buf * height buf"
    using wh0 whn fit by (intro i32_id) auto
  have in': "i32 ?n = ?n" using n0 fit by (intro i32_id) auto
  have ie: "i32 (12 + ?n) = 12 + ?n" using n0 fit by (intro i32_id) auto
  have se: "size_t (12 + ?n) = 12 + length (data buf)"
  proof -
    have "size_t (12 + ?n) = nat (12 + ?n)" using n0 fit by (intro size_t_id) auto
    also have "\<dots> = 12 + length (data buf)" using len by linarith
    finally show ?thesis .
  qed
  show ?thesis
    using w h c
    by (simp add: parseSimpleImage_def Let_def readInt_encode length_encode drop_encode
        iw ih ic iwh in' ie se)
qed

text \<open>
  C1, as stated, fails. The buffer \<open>huge_gray\<close> (65536 x 32768, one channel,
  \<open>2^31\<close> bytes) is a valid PixelBuffer whose header fields fit 32 bits, but
  \<^verbatim>\<open>12 + width * height * channels\<close> leaves the range of \<^verbatim>\<open>int\<close>: the expected size
  wraps, the comparison with the real size fails, and the decoder falls back to taking
  the whole input (header included) as payload.
\<close>

theorem wire_roundtrip_counterexample:
  "valid_PixelBuffer huge_gray \<and> parseSimpleImage (encodeAsJPEG huge_gray) \<noteq> Inr huge_gray"
proof -
  have 1: "valid_PixelBuffer huge_gray"
    by (simp add: valid_PixelBuffer_def huge_gray_def)
  have 2: "parseSimpleImage (encodeAsJPEG huge_gray)
             = Inr (huge_gray\<lparr>data := encodeAsJPEG huge_gray\<rparr>)"
    unfolding encode_huge_gray
    by (simp add: parseSimpleImage_def readInt_def i32_def size_t_def Let_def nth_append
        huge_gray_def)
  have "length (data (huge_gray\<lparr>data := encodeAsJPEG huge_gray\<rparr>)) \<noteq> length (data huge_gray)"
    by (simp add: length_encode)
  then have "huge_gray\<lparr>data := encodeAsJPEG huge_gray\<rparr> \<noteq> huge_gray"
    by metis
  with 1 2 show ?thesis by simp
qed

text \<open>
  C1, amended: for every valid PixelBuffer whose encoded size
  \<open>12 + width * height * channels\<close> fits a 32-bit \<^verbatim>\<open>int\<close>, decoding the encoding gives
  the buffer back: the same width, height, channels and bytes.
\<close>

theorem wire_roundtrip:
  assumes "valid_PixelBuffer buf"
    and "12 + width buf * height buf * channels buf < 2 ^ 31"
  shows "parseSimpleImage (encodeAsJPEG buf) = Inr buf"
  using assms by (rule parse_encode)

text \<open>Witness for C1: a 1 x 1 RGB pixel.\<close>

theorem wire_roundtrip_witness:
  "valid_PixelBuffer \<lparr>data = [1, 2, 3], width = 1, height = 1, channels = 3\<rparr> \<and>
   parseSimpleImage (encodeAsJPEG \<lparr>data = [1, 2, 3], width = 1, height = 1, channels = 3\<rparr>)
     = Inr \<lparr>data = [1, 2, 3], width = 1, height = 1, channels = 3\<rparr>"
  using wire_roundtrip [of "\<lparr>data = [1, 2, 3], width = 1, height = 1, channels = 3\<rparr>"]
  by (simp add: valid_PixelBuffer_def)

lemma parse_too_small: "length bytes < 12 \<Longrightarrow> parseSimpleImage bytes = Inl TooSmall"
  by (simp add: parseSimpleImage_def)

lemma parse_truncated:
  assumes a: "12 \<le> length bytes \<and> header_valid bytes \<and> expected bytes < 2 ^ 31 \<and>
    int (length bytes) < expected bytes"
  shows "parseSimpleImage bytes
        = Inr \<lparr>data = bytes, width = readInt bytes 0, height = readInt bytes 4,
                channels = readInt bytes 8\<rparr>"
proof -
  from a have e: "size_t (i32 (12 + i32 (i32 (readInt bytes 0 * readInt bytes 4) * readInt bytes 8)))
      = nat (expected bytes)"
    unfolding expected_def header_valid_def by (intro expectedSize_exact) auto
  from a have "\<not> nat (expected bytes) \<le> length bytes" by linarith
  with a e show ?thesis
    by (simp add: parseSimpleImage_def Let_def header_valid_def)
qed

lemma parse_complete:
  assumes a: "12 \<le> length bytes \<and> header_valid bytes \<and> expected bytes < 2 ^ 31 \<and>
    expected bytes \<le> int (length bytes)"
  shows "parseSimpleImage bytes
        = Inr \<lparr>data = take (nat (expected bytes) - 12) (drop 12 bytes),
                width = readInt bytes 0, height = readInt bytes 4,
                channels = readInt bytes 8\<rparr>"
proof -
  from a have e: "size_t (i32 (12 + i32 (i32 (readInt bytes 0 * readInt bytes 4) * readInt bytes 8)))
      = nat (expected bytes)"
    unfolding expected_def header_valid_def by (intro expectedSize_exact) auto
  from a have 1: "nat (expected bytes) \<le> length bytes" by linarith
  from a have "0 < readInt bytes 0 * readInt bytes 4 * readInt bytes 8"
    by (simp add: header_valid_def)
  then have 2: "\<not> nat (expected bytes) < 12" by (simp add: expected_def)
  from a e 1 2 show ?thesis
    by (simp add: parseSimpleImage_def Let_def header_valid_def)
qed

text \<open>
  C2, as stated, fails in its second part. A 12-byte input whose header announces a
  1 x 1 x 1 image is shorter than the expected 13 bytes, yet the decoder does not fail:
  it returns an image whose data is the input itself, header included.
\<close>

theorem decode_contract_counterexample:
  "12 \<le> length header_1x1x1 \<and> header_valid header_1x1x1 \<and>
   int (length header_1x1x1) < expected header_1x1x1 \<and>
   parseSimpleImage header_1x1x1
     = Inr \<lparr>data = header_1x1x1, width = 1, height = 1, channels = 1\<rparr>"
  by (simp add: header_1x1x1_def header_valid_def expected_def parseSimpleImage_def
      readInt_def i32_def size_t_def Let_def)

text \<open>
  C2, amended: an input of fewer than 12 bytes is rejected (\<open>TooSmall\<close>). For an input of
  at least 12 bytes whose header is valid and whose expected size
  \<open>12 + width * height * channels\<close> fits a 32-bit \<^verbatim>\<open>int\<close>: if the input is shorter than
  expected, the decoder does not fail but returns the header's dimensions with all the
  input bytes as data; if the input has at least the expected size, the payload is
  exactly the bytes from offset 12 up to the expected size, and trailing bytes are
  ignored.
\<close>

theorem decode_contract:
  "(length bytes < 12 \<longrightarrow> parseSimpleImage bytes = Inl TooSmall) \<and>
   (12 \<le> length bytes \<and> header_valid bytes \<and> expected bytes < 2 ^ 31 \<and>
    int (length bytes) < expected bytes \<longrightarrow>
      parseSimpleImage bytes
        = Inr \<lparr>data = bytes, width = readInt bytes 0, height = readInt bytes 4,
                channels = readInt bytes 8\<rparr>) \<and>
   (12 \<le> length bytes \<and> header_valid bytes \<and> expected bytes < 2 ^ 31 \<and>
    expected bytes \<le> int (length bytes) \<longrightarrow>
      parseSimpleImage bytes
        = Inr \<lparr>data = take (nat (expected bytes) - 12) (drop 12 bytes),
                width = readInt bytes 0, height = readInt bytes 4,
                channels = readInt bytes 8\<rparr>)"
  using parse_too_small [of bytes] parse_truncated [of bytes] parse_complete [of bytes]
  by blast

text \<open>Witness for C2: one input for each of the three cases.\<close>

theorem decode_contract_witness:
  "length [1, 2, 3 :: byte] < 12 \<and> parseSimpleImage [1, 2, 3] = Inl TooSmall \<and>
   header_valid header_1x1x1 \<and> expected header_1x1x1 = 13 \<and>
   parseSimpleImage header_1x1x1
     = Inr \<lparr>data = header_1x1x1, width = 1, height = 1, channels = 1\<rparr> \<and>
   header_valid (header_1x1x1 @ [7, 9]) \<and> expected (header_1x1x1 @ [7, 9]) = 13 \<and>
   parseSimpleImage (header_1x1x1 @ [7, 9])
     = Inr \<lparr>data = [7], width = 1, height = 1, channels = 1\<rparr>"
  using decode_contract [of "[1, 2, 3]"] decode_contract [of header_1x1x1]
    decode_contract [of "header_1x1x1 @ [7, 9]"]
  by (simp add: header_1x1x1_def header_valid_def expected_def readInt_def i32_def)

section \<open>Properties of the dimension computation\<close>

lemma dims_strip: "computeTargetDimensions 1000 1 800 600 = (800, 0)"
  by code_simp

text \<open>
  C9: for positive source dimensions and bounds, a source that already fits the bounds
  keeps its exact dimensions: neither clamping branch is taken.
\<close>

theorem no_upscaling:
  assumes "0 < srcW" and "0 < srcH" and "0 < maxW" and "0 < maxH"
    and "srcW \<le> maxW" and "srcH \<le> maxH"
  shows "computeTargetDimensions srcW srcH maxW maxH = (srcW, srcH)"
  using assms by (simp add: computeTargetDimensions_def Let_def)

text \<open>Witness for C9: a 640 x 480 source within the worker's default bounds 800 x 600.\<close>

theorem no_upscaling_witness:
  "(0::int) < 640 \<and> (0::int) < 480 \<and> (0::int) < 800 \<and> (0::int) < 600 \<and>
   (640::int) \<le> 800 \<and> (480::int) \<le> 600 \<and>
   computeTargetDimensions 640 480 800 600 = (640, 480)"
  using no_upscaling [of 640 480 800 600] by simp

text \<open>A bound that fits a 32-bit \<^verbatim>\<open>int\<close> is read unchanged; a larger one wraps.\<close>

lemma Int32Value_id: "- (2 ^ 31) \<le> v \<Longrightarrow> v < 2 ^ 31 \<Longrightarrow> Int32Value v = v"
  by (simp add: Int32Value_def i32_id)

lemma Int32Value_wrap: "Int32Value (2 ^ 32 + 2) = 2"
  by (simp add: Int32Value_def i32_def)

text \<open>
  C3 does not hold of the code. For the 1000 x 1 strip and the worker's default bounds
  800 x 600 the width is clamped to 800 and the height becomes
  \<^verbatim>\<open>static_cast<int>(800 / 1000.0f)\<close>, which is 0. \<^verbatim>\<open>ProcessImage\<close> goes on: it resizes to
  800 x 0, converts the empty buffer and returns a header announcing height 0, which
  the decoder's own validation (\<^verbatim>\<open>image.height <= 0\<close>) classes as invalid.
\<close>

theorem zero_height_target:
  "valid_PixelBuffer strip_1000x1 \<and>
   computeTargetDimensions (width strip_1000x1) (height strip_1000x1) 800 600 = (800, 0) \<and>
   ProcessImage (encodeAsJPEG strip_1000x1) 800 600
     = Inr (encodeAsJPEG \<lparr>data = [], width = 800, height = 0, channels = 1\<rparr>) \<and>
   \<not> header_valid (encodeAsJPEG \<lparr>data = [], width = 800, height = 0, channels = 1\<rparr>)"
proof -
  have v: "valid_PixelBuffer strip_1000x1"
    by (simp add: valid_PixelBuffer_def strip_1000x1_def)
  have p: "parseSimpleImage (encodeAsJPEG strip_1000x1) = Inr strip_1000x1"
    using v by (rule parse_encode) (simp add: strip_1000x1_def)
  have d: "computeTargetDimensions (width strip_1000x1) (height strip_1000x1) 800 600 = (800, 0)"
    by (simp add: strip_1000x1_def dims_strip)
  have r: "resizeImage strip_1000x1 800 0
             = Inr \<lparr>data = [], width = 800, height = 0, channels = 3\<rparr>"
    by (simp add: resizeImage_def loop_nest_def i32_def strip_1000x1_def Let_def)
  have g: "convertToGrayscale \<lparr>data = [], width = 800, height = 0, channels = 3\<rparr>
             = Inr \<lparr>data = [], width = 800, height = 0, channels = 1\<rparr>"
    by (simp add: convertToGrayscale_def i32_def Let_def)
  have pi: "ProcessImage (encodeAsJPEG strip_1000x1) 800 600
     = Inr (encodeAsJPEG \<lparr>data = [], width = 800, height = 0, channels = 1\<rparr>)"
    by (simp add: ProcessImage_def Int32Value_def i32_def dimensions_changed_def p d r g)
       (simp add: strip_1000x1_def)
  have h: "\<not> header_valid (encodeAsJPEG \<lparr>data = [], width = 800, height = 0, channels = 1\<rparr>)"
    by (simp add: header_valid_def readInt_encode i32_def)
  from v d pi h show ?thesis by simp
qed

section \<open>Properties of the task distributor\<close>

lemmas distributor_defs = start_def finished_def deliver_def resume_def
  processWorkerQueue_def processImageWithWorker_def messageHandler_def errorHandler_def
  timeoutCallback_def settle_def clearTimeout_def removeHandlers_def Let_def

lemma after_timeout:
  "deliver (TimerFired 0) (start 1 [''in/a.jpg'', ''in/b.jpg''])
     = \<lparr>activeJobs = 2, completedJobs = 0, totalJobs = 2, processedImages = [],
        pendingQueue = [],
        jobs = [\<lparr>imageFile = ''in/a.jpg'', workerIndex = 0,
                  promise = Rejected (WorkerTimeout 0 ''in/a.jpg''), timerArmed = False\<rparr>,
                \<lparr>imageFile = ''in/b.jpg'', workerIndex = 0, promise = Pending,
                  timerArmed = True\<rparr>],
        listeners = [[0, 1]], awaiting = [Some 1],
        posted = [(0, ''in/a.jpg''), (0, ''in/b.jpg'')]\<rparr>"
  by (simp add: distributor_defs)

lemma after_late_reply:
  "deliver (Message 0 late_reply) (deliver (TimerFired 0) (start 1 [''in/a.jpg'', ''in/b.jpg'']))
     = \<lparr>activeJobs = 0, completedJobs = 2, totalJobs = 2,
        processedImages = [''out/a.jpg'', ''out/a.jpg''], pendingQueue = [],
        jobs = [\<lparr>imageFile = ''in/a.jpg'', workerIndex = 0,
                  promise = Rejected (WorkerTimeout 0 ''in/a.jpg''), timerArmed = False\<rparr>,
                \<lparr>imageFile = ''in/b.jpg'', workerIndex = 0, promise = Resolved late_reply,
                  timerArmed = False\<rparr>],
        listeners = [[]], awaiting = [None],
        posted = [(0, ''in/a.jpg''), (0, ''in/b.jpg'')]\<rparr>"
  unfolding after_timeout by (simp add: distributor_defs late_reply_def)

lemma not_finished_start: "\<not> finished (start 1 [''in/a.jpg'', ''in/b.jpg''])"
  by (simp add: distributor_defs)

text \<open>
  C4 does not hold of the code. One worker, two jobs. The timer of the first job fires:
  its promise is rejected (reported once), but its handlers stay registered, and the
  loop sends the second job to the same worker. When the late reply of the first job
  arrives, both jobs' handlers run: \<^verbatim>\<open>completedJobs\<close> goes from 0 to 2, the output path is
  recorded twice, and the promise of the second job is resolved with the first job's
  reply.
\<close>

theorem late_reply_not_discarded:
  "processImageQueue 1 [''in/a.jpg'', ''in/b.jpg''] [TimerFired 0, Message 0 late_reply]
     = Some [''out/a.jpg'', ''out/a.jpg''] \<and>
   promise (jobs (deliver (TimerFired 0) (start 1 [''in/a.jpg'', ''in/b.jpg''])) ! 0)
     = Rejected (WorkerTimeout 0 ''in/a.jpg'') \<and>
   completedJobs (deliver (TimerFired 0) (start 1 [''in/a.jpg'', ''in/b.jpg''])) = 0 \<and>
   completedJobs (deliver (Message 0 late_reply)
      (deliver (TimerFired 0) (start 1 [''in/a.jpg'', ''in/b.jpg'']))) = 2 \<and>
   map (\<lambda>j. (imageFile j, promise j)) (jobs (deliver (Message 0 late_reply)
      (deliver (TimerFired 0) (start 1 [''in/a.jpg'', ''in/b.jpg'']))))
     = [(''in/a.jpg'', Rejected (WorkerTimeout 0 ''in/a.jpg'')),
        (''in/b.jpg'', Resolved late_reply)]"
proof -
  have nf: "\<not> finished (deliver (TimerFired 0) (start 1 [''in/a.jpg'', ''in/b.jpg'']))"
    unfolding after_timeout by (simp add: finished_def)
  have r: "run (start 1 [''in/a.jpg'', ''in/b.jpg'']) [TimerFired 0, Message 0 late_reply]
      = deliver (Message 0 late_reply) (deliver (TimerFired 0) (start 1 [''in/a.jpg'', ''in/b.jpg'']))"
    using not_finished_start nf by (simp only: run.simps if_False)
  have 1: "processImageQueue 1 [''in/a.jpg'', ''in/b.jpg''] [TimerFired 0, Message 0 late_reply]
     = Some [''out/a.jpg'', ''out/a.jpg'']"
    unfolding processImageQueue_def r after_late_reply by (simp add: finished_def)
  have 2: "promise (jobs (deliver (TimerFired 0) (start 1 [''in/a.jpg'', ''in/b.jpg''])) ! 0)
     = Rejected (WorkerTimeout 0 ''in/a.jpg'')"
    unfolding after_timeout by simp
  have 3: "completedJobs (deliver (TimerFired 0) (start 1 [''in/a.jpg'', ''in/b.jpg''])) = 0"
    unfolding after_timeout by simp
  have 4: "completedJobs (deliver (Message 0 late_reply)
      (deliver (TimerFired 0) (start 1 [''in/a.jpg'', ''in/b.jpg'']))) = 2"
    unfolding after_late_reply by simp
  have 5: "map (\<lambda>j. (imageFile j, promise j)) (jobs (deliver (Message 0 late_reply)
      (deliver (TimerFired 0) (start 1 [''in/a.jpg'', ''in/b.jpg'']))))
     = [(''in/a.jpg'', Rejected (WorkerTimeout 0 ''in/a.jpg'')),
        (''in/b.jpg'', Resolved late_reply)]"
    unfolding after_late_reply by simp
  from 1 2 3 4 5 show ?thesis by (intro conjI)
qed


subsection \<open>Runs in which no job times out\<close>

lemma success_paths_Nil [simp]: "success_paths [] = []"
  by (simp add: success_paths_def)


lemma success_paths_single [simp]: "success_paths [j] = recorded_path (promise j)"
  by (simp add: success_paths_def)

























section \<open>Properties of the transform engine\<close>

lemma size_t_small: "0 \<le> i \<Longrightarrow> i < 2 ^ 31 \<Longrightarrow> size_t i = nat i"
  by (rule size_t_id) auto

lemma vec_at_in: "0 \<le> i \<Longrightarrow> i < int (length d) \<Longrightarrow> i < 2 ^ 31 \<Longrightarrow> vec_at d i = Inr (d ! nat i)"
  by (simp add: vec_at_def size_t_small)

lemma flat_index_bounds:
  fixes w h ch px py c :: int
  assumes "0 \<le> px" "px < w" "0 \<le> py" "py < h" "0 \<le> c" "c < ch"
  shows "0 \<le> py * w" and "py * w + px < w * h" and "0 \<le> (py * w + px) * ch"
    and "(py * w + px) * ch + c < w * h * ch" and "py * w \<le> (py * w + px) * ch + c"
    and "py * w + px \<le> (py * w + px) * ch + c"
    and "(py * w + px) * ch \<le> (py * w + px) * ch + c"
proof -
  have w0: "0 \<le> w" and ch1: "1 \<le> ch" using assms by auto
  show a: "0 \<le> py * w" using assms(3) w0 by simp
  have "py * w \<le> (h - 1) * w" using assms(4) w0 by (intro mult_right_mono) auto
  then have "py * w + px \<le> (h - 1) * w + (w - 1)" using assms(2) by simp
  also have "\<dots> = w * h - 1" by (simp add: algebra_simps)
  finally have b: "py * w + px \<le> w * h - 1" .
  then show "py * w + px < w * h" by simp
  have p0: "0 \<le> py * w + px" using a assms(1) by simp
  then show c: "0 \<le> (py * w + px) * ch" using ch1 by simp
  have "(py * w + px) * ch \<le> (w * h - 1) * ch" using b ch1 by (intro mult_right_mono) auto
  then have "(py * w + px) * ch + c \<le> (w * h - 1) * ch + (ch - 1)" using assms(6) by simp
  also have "\<dots> = w * h * ch - 1" by (simp add: algebra_simps)
  finally show "(py * w + px) * ch + c < w * h * ch" by simp
  have "(py * w + px) * 1 \<le> (py * w + px) * ch" using p0 ch1 by (intro mult_left_mono) auto
  then have d: "py * w + px \<le> (py * w + px) * ch" by simp
  then show "py * w + px \<le> (py * w + px) * ch + c" using assms(5) by simp
  then show "py * w \<le> (py * w + px) * ch + c" using assms(1) by simp
  show "(py * w + px) * ch \<le> (py * w + px) * ch + c" using assms(5) by simp
qed

lemma pixel_index_exact:
  assumes "0 \<le> px" "px < w" "0 \<le> py" "py < h" "0 \<le> c" "c < ch" "w * h * ch < 2 ^ 31"
  shows "pixel_index w ch px py c = (py * w + px) * ch + c"
proof -
  note b = flat_index_bounds [OF assms(1-6)]
  have top: "(py * w + px) * ch + c < 2 ^ 31" using b(4) assms(7) by linarith
  have 1: "i32 (py * w) = py * w" using b(1) b(5) top by (intro i32_id) auto
  have 2: "i32 (py * w + px) = py * w + px" using b(1) assms(1) b(6) top by (intro i32_id) auto
  have 3: "i32 ((py * w + px) * ch) = (py * w + px) * ch" using b(3) b(7) top by (intro i32_id) auto
  have 4: "i32 ((py * w + px) * ch + c) = (py * w + px) * ch + c"
    using b(3) assms(5) top by (intro i32_id) auto
  show ?thesis by (simp add: pixel_index_def 1 2 3 4)
qed

lemma getPixel_in:
  assumes "0 \<le> px" "px < w" "0 \<le> py" "py < h" "0 \<le> c" "c < ch" "w * h * ch < 2 ^ 31"
    and "int (length d) = w * h * ch"
  shows "getPixel d w h ch px py c = Inr (d ! nat ((py * w + px) * ch + c))"
proof -
  note b = flat_index_bounds [OF assms(1-6)]
  have "\<not> defensive w h px py" using assms by (simp add: defensive_def)
  moreover have "vec_at d ((py * w + px) * ch + c) = Inr (d ! nat ((py * w + px) * ch + c))"
    using b(3) b(4) assms(5,7,8) by (intro vec_at_in) auto
  ultimately show ?thesis
    by (simp add: getPixel_def pixel_index_exact [OF assms(1-7)])
qed

lemma getPixel_total:
  assumes "0 \<le> c" "c < ch" "w * h * ch < 2 ^ 31" "int (length d) = w * h * ch"
  shows "\<exists>v. getPixel d w h ch px py c = Inr v"
proof (cases "defensive w h px py")
  case True
  then show ?thesis by (simp add: getPixel_def)
next
  case False
  then have "0 \<le> px" "px < w" "0 \<le> py" "py < h" by (auto simp: defensive_def)
  from getPixel_in [OF this assms] show ?thesis by blast
qed

lemma interpolate_total:
  assumes "0 \<le> c" "c < ch" "w * h * ch < 2 ^ 31" "int (length d) = w * h * ch"
  shows "\<exists>v. interpolate d w h ch x y c = Inr v"
proof -
  obtain x1 y1 x2 y2 where n: "neighbours w h x y = (x1, y1, x2, y2)"
    by (metis prod_cases4)
  obtain p11 where 1: "getPixel d w h ch x1 y1 c = Inr p11" using getPixel_total [OF assms] by blast
  obtain p21 where 2: "getPixel d w h ch x2 y1 c = Inr p21" using getPixel_total [OF assms] by blast
  obtain p12 where 3: "getPixel d w h ch x1 y2 c = Inr p12" using getPixel_total [OF assms] by blast
  obtain p22 where 4: "getPixel d w h ch x2 y2 c = Inr p22" using getPixel_total [OF assms] by blast
  show ?thesis by (simp add: interpolate_def n 1 2 3 4 Let_def)
qed

lemma bilinearInterpolate_total:
  assumes "0 \<le> c" "c < ch" "w * h * ch < 2 ^ 31" "int (length d) = w * h * ch"
  shows "\<exists>v. bilinearInterpolate d w h ch x y c = Inr v"
  using interpolate_total [OF assms, of x y] by (auto simp: bilinearInterpolate_def)

subsection \<open>The store loop\<close>

lemma store_all_length: "store_all f ks out = Inr out' \<Longrightarrow> length out' = length out"
proof (induction ks arbitrary: out)
  case Nil
  then show ?case by simp
next
  case (Cons k ks)
  then show ?case by (auto split: sum.splits prod.splits if_splits)
qed

lemma store_all_total:
  assumes "\<And>k. k \<in> set ks \<Longrightarrow> \<exists>i v. f k = Inr (i, v) \<and> size_t i < length out"
  shows "\<exists>out'. store_all f ks out = Inr out'"
  using assms
proof (induction ks arbitrary: out)
  case Nil
  then show ?case by simp
next
  case (Cons k ks)
  obtain i v where kv: "f k = Inr (i, v)" "size_t i < length out" using Cons.prems by fastforce
  have "\<exists>out'. store_all f ks (out[size_t i := v]) = Inr out'"
    using Cons.prems by (intro Cons.IH) auto
  then show ?case using kv by simp
qed

lemma store_all_inv:
  assumes "store_all f ks out = Inr out'"
    and "\<And>k i v. k \<in> set ks \<Longrightarrow> f k = Inr (i, v) \<Longrightarrow> P (size_t i) v"
    and "j < length out"
    and "P j (out ! j) \<or> (\<exists>k \<in> set ks. \<exists>i v. f k = Inr (i, v) \<and> size_t i = j)"
  shows "P j (out' ! j)"
  using assms
proof (induction ks arbitrary: out)
  case Nil
  then show ?case by simp
next
  case (Cons k ks)
  from Cons.prems(1) obtain i v where kv: "f k = Inr (i, v)" and lt: "size_t i < length out"
    and rest: "store_all f ks (out[size_t i := v]) = Inr out'"
    by (auto split: sum.splits prod.splits if_splits)
  have Pv: "P (size_t i) v" using Cons.prems(2) [of k i v] kv by simp
  have A: "\<And>k i v. k \<in> set ks \<Longrightarrow> f k = Inr (i, v) \<Longrightarrow> P (size_t i) v"
    using Cons.prems(2) by (meson list.set_intros(2))
  have B: "j < length (out[size_t i := v])" using Cons.prems(3) by simp
  have C: "P j (out[size_t i := v] ! j) \<or> (\<exists>k\<in>set ks. \<exists>i v. f k = Inr (i, v) \<and> size_t i = j)"
  proof (cases "size_t i = j")
    case True
    then show ?thesis using Pv lt by auto
  next
    case False
    then have "out[size_t i := v] ! j = out ! j" by simp
    then show ?thesis using Cons.prems(4) kv False by auto
  qed
  show ?case by (rule Cons.IH [OF rest A B C])
qed

lemma set_loop_nest:
  "set (loop_nest H W ch) = {(y, x, c). 0 \<le> y \<and> y < H \<and> 0 \<le> x \<and> x < W \<and> 0 \<le> c \<and> c < ch}"
  by (force simp: loop_nest_def)


subsection \<open>resizeImage returns a buffer of the requested size\<close>

lemma resize_pixel_total:
  assumes src: "w * h * ch < 2 ^ 31" "int (length d) = w * h * ch"
    and k: "0 \<le> y" "y < H" "0 \<le> x" "x < W" "0 \<le> c" "c < ch"
    and dst: "W * H * ch < 2 ^ 31"
  shows "\<exists>v. resize_pixel \<lparr>data = d, width = w, height = h, channels = ch\<rparr> W xr yr (y, x, c)
            = Inr ((y * W + x) * ch + c, v)"
proof -
  obtain v where "bilinearInterpolate d w h ch (fmul (i2f x) xr) (fmul (i2f y) yr) c = Inr v"
    using bilinearInterpolate_total [OF k(5,6) src] by blast
  moreover have "pixel_index W ch x y c = (y * W + x) * ch + c"
    using k dst by (intro pixel_index_exact) auto
  ultimately show ?thesis by (simp add: resize_pixel_def Let_def)
qed

lemma resize_size:
  fixes W H ch :: int
  assumes "0 < W" "0 < H" "0 < ch" "W * H * ch < 2 ^ 31"
  shows "i32 (i32 (W * H) * ch) = W * H * ch" and "0 < W * H * ch"
proof -
  have wh0: "0 < W * H" using assms by simp
  show n0: "0 < W * H * ch" using wh0 assms(3) by simp
  have "W * H * 1 \<le> W * H * ch" using assms(3) wh0 by (intro mult_left_mono) auto
  then have "W * H \<le> W * H * ch" by simp
  then have "i32 (W * H) = W * H" using wh0 assms(4) by (intro i32_id) auto
  moreover have "i32 (W * H * ch) = W * H * ch" using n0 assms(4) by (intro i32_id) auto
  ultimately show "i32 (i32 (W * H) * ch) = W * H * ch" by simp
qed

lemma resizeImage_ok:
  assumes src: "w * h * ch < 2 ^ 31" "int (length d) = w * h * ch"
    and dst: "0 < W" "0 < H" "0 < ch" "W * H * ch < 2 ^ 31"
  shows "\<exists>out. resizeImage \<lparr>data = d, width = w, height = h, channels = ch\<rparr> W H
            = Inr \<lparr>data = out, width = W, height = H, channels = ch\<rparr> \<and>
          int (length out) = W * H * ch"
proof -
  let ?inp = "\<lparr>data = d, width = w, height = h, channels = ch\<rparr>"
  let ?n = "W * H * ch"
  let ?xr = "fdiv (i2f w) (i2f W)" and ?yr = "fdiv (i2f h) (i2f H)"
  let ?f = "resize_pixel ?inp W ?xr ?yr"
  note n = resize_size [OF dst]
  have "\<exists>out'. store_all ?f (loop_nest H W ch) (replicate (nat ?n) 0) = Inr out'"
  proof (rule store_all_total)
    fix k assume "k \<in> set (loop_nest H W ch)"
    then obtain y x c where k: "k = (y, x, c)" "0 \<le> y" "y < H" "0 \<le> x" "x < W" "0 \<le> c" "c < ch"
      by (auto simp: set_loop_nest)
    obtain v where v: "?f (y, x, c) = Inr ((y * W + x) * ch + c, v)"
      using resize_pixel_total [OF src k(2-7) dst(4)] by blast
    note b = flat_index_bounds [OF k(4,5,2,3,6,7)]
    have "size_t ((y * W + x) * ch + c) = nat ((y * W + x) * ch + c)"
      using b(3,4) k(6) dst(4) by (intro size_t_small) auto
    then have "size_t ((y * W + x) * ch + c) < length (replicate (nat ?n) (0::byte))"
      using b(3,4) k(6) by simp
    with v k(1) show "\<exists>i v. ?f k = Inr (i, v) \<and> size_t i < length (replicate (nat ?n) (0::byte))"
      by blast
  qed
  then obtain out' where o: "store_all ?f (loop_nest H W ch) (replicate (nat ?n) 0) = Inr out'"
    by blast
  have "length out' = nat ?n" using store_all_length [OF o] by simp
  then have "int (length out') = ?n" using n(2) by simp
  moreover have "resizeImage ?inp W H = Inr \<lparr>data = out', width = W, height = H, channels = ch\<rparr>"
    using n o by (simp add: resizeImage_def Let_def)
  ultimately show ?thesis by blast
qed

subsection \<open>convertToGrayscale\<close>

lemma gray_pixel_eq:
  fixes w h ch i :: int
  assumes "0 \<le> i" "i < w * h" "0 < ch" "w * h * ch < 2 ^ 31" "int (length d) = w * h * ch"
  shows "gray_pixel \<lparr>data = d, width = w, height = h, channels = ch\<rparr> i = Inr (i, gray_expected d ch i)"
proof -
  have "i * ch \<le> (w * h - 1) * ch" using assms(2,3) by (intro mult_right_mono) auto
  then have hi: "i * ch + ch \<le> w * h * ch" by (simp add: algebra_simps)
  have lo: "0 \<le> i * ch" using assms(1,3) by simp
  have i0: "i32 (i * ch) = i * ch" using lo hi assms(3,4) by (intro i32_id) auto
  have r0: "vec_at d (i * ch) = Inr (d ! nat (i * ch))"
    using lo hi assms(2,3,4,5) by (intro vec_at_in) auto
  show ?thesis
  proof (cases "ch \<ge> 3")
    case True
    have i1: "i32 (i * ch + 1) = i * ch + 1" using lo hi True assms(4) by (intro i32_id) auto
    have i2: "i32 (i * ch + 2) = i * ch + 2" using lo hi True assms(4) by (intro i32_id) auto
    have r1: "vec_at d (i * ch + 1) = Inr (d ! nat (i * ch + 1))"
      using lo hi True assms(4,5) by (intro vec_at_in) auto
    have r2: "vec_at d (i * ch + 2) = Inr (d ! nat (i * ch + 2))"
      using lo hi True assms(4,5) by (intro vec_at_in) auto
    show ?thesis using True by (simp add: gray_pixel_def gray_expected_def i0 i1 i2 r0 r1 r2)
  next
    case False
    then show ?thesis by (simp add: gray_pixel_def gray_expected_def i0 r0)
  qed
qed

lemma convertToGrayscale_ok:
  assumes "0 < w" "0 < h" "0 < ch" "w * h * ch < 2 ^ 31" "int (length d) = w * h * ch"
  shows "\<exists>out. convertToGrayscale \<lparr>data = d, width = w, height = h, channels = ch\<rparr>
            = Inr \<lparr>data = out, width = w, height = h, channels = 1\<rparr> \<and>
          int (length out) = w * h \<and>
          (\<forall>j < nat (w * h). out ! j = gray_expected d ch (int j))"
proof -
  let ?inp = "\<lparr>data = d, width = w, height = h, channels = ch\<rparr>"
  let ?n = "w * h"
  have n0: "0 < ?n" using assms by simp
  have "?n * 1 \<le> ?n * ch" using assms(3) n0 by (intro mult_left_mono) auto
  then have nle: "?n \<le> w * h * ch" by simp
  have n: "i32 ?n = ?n" using n0 nle assms(4) by (intro i32_id) auto
  have px: "\<And>i. i \<in> set [0..?n - 1] \<Longrightarrow> gray_pixel ?inp i = Inr (i, gray_expected d ch i)"
    using assms(3,4,5) by (intro gray_pixel_eq) auto
  have sz: "\<And>i. i \<in> set [0..?n - 1] \<Longrightarrow> size_t i = nat i"
    using nle assms(4) by (intro size_t_small) auto
  have "\<exists>out'. store_all (gray_pixel ?inp) [0..?n - 1] (replicate (nat ?n) 0) = Inr out'"
  proof (rule store_all_total)
    fix k assume k: "k \<in> set [0..?n - 1]"
    then have "size_t k < length (replicate (nat ?n) (0::byte))" using sz [OF k] by auto
    with px [OF k] show "\<exists>i v. gray_pixel ?inp k = Inr (i, v) \<and>
        size_t i < length (replicate (nat ?n) (0::byte))" by blast
  qed
  then obtain out' where o: "store_all (gray_pixel ?inp) [0..?n - 1] (replicate (nat ?n) 0) = Inr out'"
    by blast
  have len: "length out' = nat ?n" using store_all_length [OF o] by simp
  have nth: "out' ! j = gray_expected d ch (int j)" if j: "j < nat ?n" for j
  proof (rule store_all_inv [OF o, where P = "\<lambda>j v. v = gray_expected d ch (int j)"])
    fix k i v assume k: "k \<in> set [0..?n - 1]" and f: "gray_pixel ?inp k = Inr (i, v)"
    from px [OF k] f have "i = k" "v = gray_expected d ch k" by auto
    moreover have "int (size_t k) = k" using sz [OF k] k by auto
    ultimately show "v = gray_expected d ch (int (size_t i))" by simp
  next
    show "j < length (replicate (nat ?n) (0::byte))" using j by simp
  next
    have k: "int j \<in> set [0..?n - 1]" using j by auto
    have "size_t (int j) = j" using sz [OF k] by simp
    with px [OF k] k
    show "replicate (nat ?n) (0::byte) ! j = gray_expected d ch (int j) \<or>
          (\<exists>k\<in>set [0..?n - 1]. \<exists>i v. gray_pixel ?inp k = Inr (i, v) \<and> size_t i = j)"
      by blast
  qed
  have "convertToGrayscale ?inp = Inr \<lparr>data = out', width = w, height = h, channels = 1\<rparr>"
    using n n0 o by (simp add: convertToGrayscale_def Let_def)
  moreover have "int (length out') = ?n" using len n0 by simp
  ultimately show ?thesis using nth by blast
qed


text \<open>
  C5, as stated, fails for the decoder. The 12-byte input \<open>header_1x1x1\<close> is accepted,
  and the buffer returned for it announces 1 x 1 x 1 but holds 12 bytes.
\<close>

theorem invariant_counterexample:
  "parseSimpleImage header_1x1x1
     = Inr \<lparr>data = header_1x1x1, width = 1, height = 1, channels = 1\<rparr> \<and>
   \<not> buffer_invariant \<lparr>data = header_1x1x1, width = 1, height = 1, channels = 1\<rparr>"
  by (simp add: header_1x1x1_def buffer_invariant_def parseSimpleImage_def
      readInt_def i32_def size_t_def Let_def)

text \<open>
  C5, amended: the invariant \<open>length bytes = width * height * channels\<close> holds of the
  buffer that the decoder returns for an input with a valid header and at least the
  expected number of bytes, of the buffer that \<^verbatim>\<open>resizeImage\<close> returns for a valid
  source and positive target dimensions, and of the buffer that \<^verbatim>\<open>convertToGrayscale\<close>
  returns for a valid source; each time provided the sizes involved fit a 32-bit
  \<^verbatim>\<open>int\<close>, and each time the operation does return a buffer. (On a shorter input the
  decoder returns a buffer that need not satisfy the invariant.)
\<close>

theorem invariant_of_outputs:
  "(12 \<le> length bytes \<and> header_valid bytes \<and> expected bytes < 2 ^ 31 \<and>
    expected bytes \<le> int (length bytes) \<longrightarrow>
      (\<exists>buf. parseSimpleImage bytes = Inr buf \<and> buffer_invariant buf)) \<and>
   (valid_PixelBuffer src \<and> width src * height src * channels src < 2 ^ 31 \<and>
    0 < dstW \<and> 0 < dstH \<and> dstW * dstH * channels src < 2 ^ 31 \<longrightarrow>
      (\<exists>buf. resizeImage src dstW dstH = Inr buf \<and> buffer_invariant buf)) \<and>
   (valid_PixelBuffer src \<and> width src * height src * channels src < 2 ^ 31 \<longrightarrow>
      (\<exists>buf. convertToGrayscale src = Inr buf \<and> buffer_invariant buf))"
proof (intro conjI impI)
  assume a: "12 \<le> length bytes \<and> header_valid bytes \<and> expected bytes < 2 ^ 31 \<and>
    expected bytes \<le> int (length bytes)"
  let ?buf = "\<lparr>data = take (nat (expected bytes) - 12) (drop 12 bytes),
                width = readInt bytes 0, height = readInt bytes 4, channels = readInt bytes 8\<rparr>"
  define n where "n = readInt bytes 0 * readInt bytes 4 * readInt bytes 8"
  from a have n0: "0 < n"
    by (simp add: header_valid_def n_def)
  from a have le: "12 + n \<le> int (length bytes)"
    by (simp add: expected_def n_def)
  have "int (length (take (nat (12 + n) - 12) (drop 12 bytes))) = n"
    using n0 le by (simp add: min_def) linarith
  then have "buffer_invariant ?buf"
    by (simp add: buffer_invariant_def expected_def n_def)
  with parse_complete [OF a]
  show "\<exists>buf. parseSimpleImage bytes = Inr buf \<and> buffer_invariant buf" by blast
next
  assume a: "valid_PixelBuffer src \<and> width src * height src * channels src < 2 ^ 31 \<and>
    0 < dstW \<and> 0 < dstH \<and> dstW * dstH * channels src < 2 ^ 31"
  obtain d w h c where s: "src = \<lparr>data = d, width = w, height = h, channels = c\<rparr>"
    by (cases src) auto
  from a have "\<exists>out. resizeImage \<lparr>data = d, width = w, height = h, channels = c\<rparr> dstW dstH
            = Inr \<lparr>data = out, width = dstW, height = dstH, channels = c\<rparr> \<and>
          int (length out) = dstW * dstH * c"
    unfolding s by (intro resizeImage_ok) (auto simp: valid_PixelBuffer_def)
  then show "\<exists>buf. resizeImage src dstW dstH = Inr buf \<and> buffer_invariant buf"
    unfolding s by (auto simp: buffer_invariant_def)
next
  assume a: "valid_PixelBuffer src \<and> width src * height src * channels src < 2 ^ 31"
  obtain d w h c where s: "src = \<lparr>data = d, width = w, height = h, channels = c\<rparr>"
    by (cases src) auto
  from a have "\<exists>out. convertToGrayscale \<lparr>data = d, width = w, height = h, channels = c\<rparr>
            = Inr \<lparr>data = out, width = w, height = h, channels = 1\<rparr> \<and>
          int (length out) = w * h \<and>
          (\<forall>j < nat (w * h). out ! j = gray_expected d c (int j))"
    unfolding s by (intro convertToGrayscale_ok) (auto simp: valid_PixelBuffer_def)
  then show "\<exists>buf. convertToGrayscale src = Inr buf \<and> buffer_invariant buf"
    unfolding s by (auto simp: buffer_invariant_def)
qed

text \<open>Witness for C5: a complete 1 x 1 x 1 input, and a 2 x 1 RGB buffer resized to 1 x 1
  and converted to grayscale.\<close>

theorem invariant_of_outputs_witness:
  "header_valid (header_1x1x1 @ [7]) \<and> expected (header_1x1x1 @ [7]) = 13 \<and>
   (\<exists>buf. parseSimpleImage (header_1x1x1 @ [7]) = Inr buf \<and> buffer_invariant buf) \<and>
   valid_PixelBuffer \<lparr>data = [1, 2, 3, 4, 5, 6], width = 2, height = 1, channels = 3\<rparr> \<and>
   (\<exists>buf. resizeImage \<lparr>data = [1, 2, 3, 4, 5, 6], width = 2, height = 1, channels = 3\<rparr> 1 1
            = Inr buf \<and> buffer_invariant buf) \<and>
   (\<exists>buf. convertToGrayscale \<lparr>data = [1, 2, 3, 4, 5, 6], width = 2, height = 1, channels = 3\<rparr>
            = Inr buf \<and> buffer_invariant buf)"
  using invariant_of_outputs [of "header_1x1x1 @ [7]"
      "\<lparr>data = [1, 2, 3, 4, 5, 6], width = 2, height = 1, channels = 3\<rparr>" 1 1]
  by (simp add: header_1x1x1_def header_valid_def expected_def readInt_def i32_def
      valid_PixelBuffer_def)

subsection \<open>The grayscale value and the exact luminance\<close>

lemma f32_299: "f32 (299 / 1000) = 10032775 / 33554432" by code_simp
lemma f32_587: "f32 (587 / 1000) = 4924113 / 8388608" by code_simp
lemma f32_114: "f32 (114 / 1000) = 15300821 / 134217728" by code_simp

lemma f32_err_256: "\<bar>x\<bar> \<le> 256 \<Longrightarrow> \<bar>f32 x - x\<bar> \<le> 1 / 131072"
  using f32_abs_err [of x 8] by (simp add: power_int_minus_divide)

lemma f32_err_1: "\<bar>x\<bar> \<le> 1 \<Longrightarrow> \<bar>f32 x - x\<bar> \<le> 1 / 33554432"
  using f32_abs_err [of x 0] by (simp add: power_int_minus_divide)

lemma u8f_range: "0 \<le> u8f b" "u8f b \<le> 255"
proof -
  have "(of_int 0 :: rat) \<le> of_int (uint b)" by (simp only: of_int_le_iff uint_ge_0)
  then show "0 \<le> u8f b" by (simp only: u8f_def of_int_0)
  have "uint b < 2 ^ 8" using uint_bounded [of b] by simp
  then have "uint b \<le> 255" by simp
  then have "(of_int (uint b) :: rat) \<le> of_int 255" by (simp only: of_int_le_iff)
  then show "u8f b \<le> 255" by (simp add: u8f_def)
qed

lemma gray_value_close:
  "\<bar>gray_value r g b - luminance r g b\<bar> \<le> 1 / 10000"
  "0 \<le> gray_value r g b" "gray_value r g b < 256"
proof -
  define R G B where "R = u8f r" and "G = u8f g" and "B = u8f b"
  have R: "0 \<le> R" "R \<le> 255" and G: "0 \<le> G" "G \<le> 255" and B: "0 \<le> B" "B \<le> 255"
    by (simp_all add: R_def G_def B_def u8f_range)
  define pr pg pb where "pr = f32 (10032775 / 33554432 * R)"
    and "pg = f32 (4924113 / 8388608 * G)" and "pb = f32 (15300821 / 134217728 * B)"
  define s t where "s = f32 (pr + pg)" and "t = f32 (s + pb)"
  have gv: "gray_value r g b = t"
    unfolding gray_value_def fadd_def fmul_def f32_299 f32_587 f32_114
      t_def s_def pr_def pg_def pb_def R_def G_def B_def by (rule refl)
  have er: "\<bar>pr - 10032775 / 33554432 * R\<bar> \<le> 1 / 131072"
    unfolding pr_def using R by (intro f32_err_256) linarith
  have eg: "\<bar>pg - 4924113 / 8388608 * G\<bar> \<le> 1 / 131072"
    unfolding pg_def using G by (intro f32_err_256) linarith
  have eb: "\<bar>pb - 15300821 / 134217728 * B\<bar> \<le> 1 / 131072"
    unfolding pb_def using B by (intro f32_err_256) linarith
  have pr0: "0 \<le> pr" unfolding pr_def using R by (intro f32_nonneg) simp
  have pg0: "0 \<le> pg" unfolding pg_def using G by (intro f32_nonneg) simp
  have pb0: "0 \<le> pb" unfolding pb_def using B by (intro f32_nonneg) simp
  have es: "\<bar>s - (pr + pg)\<bar> \<le> 1 / 131072"
    unfolding s_def using er eg R G pr0 pg0 by (intro f32_err_256) linarith
  have s0: "0 \<le> s" unfolding s_def using pr0 pg0 by (intro f32_nonneg) simp
  have et: "\<bar>t - (s + pb)\<bar> \<le> 1 / 131072"
    unfolding t_def using es er eg eb R G B s0 pb0
    by (intro f32_err_256) linarith
  have t0: "0 \<le> t" unfolding t_def using s0 pb0 by (intro f32_nonneg) simp
  have lum: "luminance r g b = 299 / 1000 * R + 587 / 1000 * G + 114 / 1000 * B"
    by (simp add: luminance_def R_def G_def B_def)
  show "\<bar>gray_value r g b - luminance r g b\<bar> \<le> 1 / 10000"
    unfolding gv lum using er eg eb es et R G B by linarith
  show "0 \<le> gray_value r g b" unfolding gv by (rule t0)
  show "gray_value r g b < 256"
    unfolding gv using er eg eb es et R G B by linarith
qed


lemma gray_byte:
  "uint (f2u8 (gray_value r g b)) = \<lfloor>gray_value r g b\<rfloor>"
  "trunc (luminance r g b) - 1 \<le> uint (f2u8 (gray_value r g b))"
  "uint (f2u8 (gray_value r g b)) \<le> trunc (luminance r g b)"
proof -
  define t where "t = gray_value r g b"
  define L where "L = luminance r g b"
  define N where "N = 299 * uint r + 587 * uint g + 114 * uint b"
  have c: "\<bar>t - L\<bar> \<le> 1 / 10000" and t0: "0 \<le> t" and t256: "t < 256"
    unfolding t_def L_def by (rule gray_value_close)+
  have f0: "0 \<le> \<lfloor>t\<rfloor>" using t0 by simp
  have "t < of_int 256" using t256 by simp
  then have f256: "\<lfloor>t\<rfloor> < 256" by (simp only: floor_less_iff)
  have "uint (word_of_int \<lfloor>t\<rfloor> :: byte) = \<lfloor>t\<rfloor>"
    using f0 f256 by (simp add: uint_word_of_int_eq take_bit_int_eq_self)
  then show u: "uint (f2u8 (gray_value r g b)) = \<lfloor>gray_value r g b\<rfloor>"
    using t0 by (simp add: f2u8_def trunc_def t_def)
  have LN: "L = of_int N / 1000"
    by (simp add: L_def luminance_def N_def u8f_def)
  have N0: "0 \<le> N" by (simp add: N_def)
  then have L0: "0 \<le> L" by (simp add: LN)
  have fl: "\<lfloor>L\<rfloor> = N div 1000"
  proof -
    have "\<lfloor>(of_int N :: rat) / of_int 1000\<rfloor> = N div 1000" by (rule floor_divide_of_int_eq)
    then show ?thesis by (simp add: LN)
  qed
  have "N = 1000 * (N div 1000) + N mod 1000" by simp
  moreover have "N mod 1000 \<le> 999" using pos_mod_bound [of 1000 N] by simp
  ultimately have "N \<le> 1000 * (N div 1000) + 999" by linarith
  then have "(of_int N :: rat) \<le> of_int (1000 * (N div 1000) + 999)" by (simp only: of_int_le_iff)
  moreover have "\<lfloor>(of_int N :: rat) / 1000\<rfloor> = N div 1000"
    using floor_divide_of_int_eq [of N 1000, where ?'a = rat] by simp
  ultimately have up: "L \<le> of_int \<lfloor>L\<rfloor> + 999 / 1000" by (simp add: LN)
  have c1: "t \<le> L + 1 / 10000" and c2: "L - 1 / 10000 \<le> t" using c by linarith+
  have "t < of_int \<lfloor>L\<rfloor> + 1" using c1 up by linarith
  then have "t < of_int (\<lfloor>L\<rfloor> + 1)" by simp
  then have hi: "\<lfloor>t\<rfloor> < \<lfloor>L\<rfloor> + 1" by (simp only: floor_less_iff)
  have "of_int \<lfloor>L\<rfloor> \<le> L" by simp
  then have "of_int \<lfloor>L\<rfloor> - 1 \<le> t" using c2 by linarith
  then have "of_int (\<lfloor>L\<rfloor> - 1) \<le> t" by simp
  then have lo: "\<lfloor>L\<rfloor> - 1 \<le> \<lfloor>t\<rfloor>" by (simp only: le_floor_iff)
  have tr: "trunc L = \<lfloor>L\<rfloor>" using L0 by (simp add: trunc_def)
  show "trunc (luminance r g b) - 1 \<le> uint (f2u8 (gray_value r g b))"
    using lo tr u by (simp add: t_def L_def)
  show "uint (f2u8 (gray_value r g b)) \<le> trunc (luminance r g b)"
    using hi tr u by (simp add: t_def L_def)
qed

lemma gray_red: "convertToGrayscale \<lparr>data = [255, 0, 0], width = 1, height = 1, channels = 3\<rparr>
    = Inr \<lparr>data = [76], width = 1, height = 1, channels = 1\<rparr>"
  by code_simp

lemma gray_green: "convertToGrayscale \<lparr>data = [0, 255, 0], width = 1, height = 1, channels = 3\<rparr>
    = Inr \<lparr>data = [149], width = 1, height = 1, channels = 1\<rparr>"
  by code_simp

lemma gray_blue: "convertToGrayscale \<lparr>data = [0, 0, 255], width = 1, height = 1, channels = 3\<rparr>
    = Inr \<lparr>data = [29], width = 1, height = 1, channels = 1\<rparr>"
  by code_simp

lemma gray_8_80_32: "convertToGrayscale \<lparr>data = [8, 80, 32], width = 1, height = 1, channels = 3\<rparr>
    = Inr \<lparr>data = [52], width = 1, height = 1, channels = 1\<rparr>"
  by code_simp

text \<open>
  C7, as stated, fails where it says that each output byte is the truncated luminance.
  For the pixel (8, 80, 32) the luminance \<open>0.299 * 8 + 0.587 * 80 + 0.114 * 32\<close> is
  exactly 53, but the code computes in \<^verbatim>\<open>float\<close>: the three rounded products and the
  two rounded sums give a value just below 53, and the truncation yields 52.
\<close>

theorem grayscale_counterexample:
  "convertToGrayscale \<lparr>data = [8, 80, 32], width = 1, height = 1, channels = 3\<rparr>
     = Inr \<lparr>data = [52], width = 1, height = 1, channels = 1\<rparr> \<and>
   luminance 8 80 32 = 53 \<and> trunc (luminance 8 80 32) = 53"
  by (simp add: gray_8_80_32 luminance_def u8f_def trunc_def)

text \<open>
  C7, amended: for every valid buffer with at least three channels (whose size fits a
  32-bit \<^verbatim>\<open>int\<close>) \<^verbatim>\<open>convertToGrayscale\<close> returns a one-channel buffer of the same width
  and height in which the byte of each pixel is the \<^verbatim>\<open>float\<close> value
  \<^verbatim>\<open>0.299f * R + 0.587f * G + 0.114f * B\<close> of the pixel's first three channels (each
  product and each sum rounded to \<^verbatim>\<open>float\<close>), truncated toward zero without wrapping;
  this byte is the truncated exact luminance or one less. The pixels (255, 0, 0),
  (0, 255, 0) and (0, 0, 255) yield 76, 149 and 29.
\<close>

theorem grayscale_luminance:
  "(valid_PixelBuffer src \<and> 3 \<le> channels src \<and>
    width src * height src * channels src < 2 ^ 31 \<longrightarrow>
      (\<exists>out. convertToGrayscale src
                = Inr \<lparr>data = out, width = width src, height = height src, channels = 1\<rparr> \<and>
             int (length out) = width src * height src \<and>
             (\<forall>i < length out.
                case source_rgb src i of (r, g, b) \<Rightarrow>
                  out ! i = f2u8 (gray_value r g b) \<and>
                  uint (out ! i) = \<lfloor>gray_value r g b\<rfloor> \<and>
                  trunc (luminance r g b) - 1 \<le> uint (out ! i) \<and>
                  uint (out ! i) \<le> trunc (luminance r g b)))) \<and>
   convertToGrayscale \<lparr>data = [255, 0, 0], width = 1, height = 1, channels = 3\<rparr>
     = Inr \<lparr>data = [76], width = 1, height = 1, channels = 1\<rparr> \<and>
   convertToGrayscale \<lparr>data = [0, 255, 0], width = 1, height = 1, channels = 3\<rparr>
     = Inr \<lparr>data = [149], width = 1, height = 1, channels = 1\<rparr> \<and>
   convertToGrayscale \<lparr>data = [0, 0, 255], width = 1, height = 1, channels = 3\<rparr>
     = Inr \<lparr>data = [29], width = 1, height = 1, channels = 1\<rparr>"
proof (intro conjI impI)
  assume a: "valid_PixelBuffer src \<and> 3 \<le> channels src \<and>
    width src * height src * channels src < 2 ^ 31"
  obtain d w h c where s: "src = \<lparr>data = d, width = w, height = h, channels = c\<rparr>"
    by (cases src) auto
  from a have c3: "3 \<le> c" by (simp add: s)
  from a obtain out where o: "convertToGrayscale \<lparr>data = d, width = w, height = h, channels = c\<rparr>
            = Inr \<lparr>data = out, width = w, height = h, channels = 1\<rparr>"
    and len: "int (length out) = w * h"
    and nth: "\<forall>j < nat (w * h). out ! j = gray_expected d c (int j)"
    using convertToGrayscale_ok [of w h c d] unfolding s by (auto simp: valid_PixelBuffer_def)
  have px: "case source_rgb src i of (r, g, b) \<Rightarrow>
                  out ! i = f2u8 (gray_value r g b) \<and>
                  uint (out ! i) = \<lfloor>gray_value r g b\<rfloor> \<and>
                  trunc (luminance r g b) - 1 \<le> uint (out ! i) \<and>
                  uint (out ! i) \<le> trunc (luminance r g b)" if i: "i < length out" for i
  proof -
    have "i < nat (w * h)" using i len by linarith
    then have "out ! i = gray_expected d c (int i)" using nth by blast
    moreover have "nat (int i * c) = i * nat c" "nat (int i * c + 1) = i * nat c + 1"
      "nat (int i * c + 2) = i * nat c + 2"
      using c3 by (simp_all add: nat_mult_distrib nat_add_distrib)
    ultimately have "out ! i = f2u8 (gray_value (d ! (i * nat c)) (d ! (i * nat c + 1))
        (d ! (i * nat c + 2)))"
      using c3 by (simp add: gray_expected_def)
    then show ?thesis
      using gray_byte [of "d ! (i * nat c)" "d ! (i * nat c + 1)" "d ! (i * nat c + 2)"]
      by (simp add: source_rgb_def s)
  qed
  show "\<exists>out. convertToGrayscale src
                = Inr \<lparr>data = out, width = width src, height = height src, channels = 1\<rparr> \<and>
             int (length out) = width src * height src \<and>
             (\<forall>i < length out.
                case source_rgb src i of (r, g, b) \<Rightarrow>
                  out ! i = f2u8 (gray_value r g b) \<and>
                  uint (out ! i) = \<lfloor>gray_value r g b\<rfloor> \<and>
                  trunc (luminance r g b) - 1 \<le> uint (out ! i) \<and>
                  uint (out ! i) \<le> trunc (luminance r g b))"
    using o len px unfolding s by auto
qed (rule gray_red gray_green gray_blue)+

text \<open>Witness for C7: the red, green and blue pixels in one buffer.\<close>

theorem grayscale_luminance_witness:
  "valid_PixelBuffer rgb_strip \<and> 3 \<le> channels rgb_strip \<and>
   (\<exists>out. convertToGrayscale rgb_strip
            = Inr \<lparr>data = out, width = 3, height = 1, channels = 1\<rparr> \<and>
          int (length out) = 3 \<and>
          (\<forall>i < length out.
             case source_rgb rgb_strip i of (r, g, b) \<Rightarrow>
               out ! i = f2u8 (gray_value r g b) \<and>
               uint (out ! i) = \<lfloor>gray_value r g b\<rfloor> \<and>
               trunc (luminance r g b) - 1 \<le> uint (out ! i) \<and>
               uint (out ! i) \<le> trunc (luminance r g b)))"
  using grayscale_luminance [of rgb_strip]
  by (simp add: rgb_strip_def valid_PixelBuffer_def)

subsection \<open>Resizing to the source's own dimensions\<close>

lemma i2f_exact: "\<bar>n\<bar> \<le> 2 ^ 24 \<Longrightarrow> i2f n = of_int n"
  by (simp add: i2f_def f32_of_int)

lemma f32_1 [simp]: "f32 1 = 1"
  using f32_of_int [of 1] by simp

lemma f32_u8f [simp]: "f32 (u8f p) = u8f p"
proof -
  have "uint p < 2 ^ 8" using uint_bounded [of p] by simp
  then have "\<bar>uint p\<bar> \<le> 2 ^ 24" by simp
  then show ?thesis unfolding u8f_def by (rule f32_of_int)
qed

lemma trunc_of_int: "trunc (of_int k) = k"
  by (simp add: trunc_def)

lemma f2u8_u8f [simp]: "f2u8 (u8f p) = p"
  unfolding f2u8_def u8f_def trunc_of_int by simp

lemma blend_0: "f32 a = a \<Longrightarrow> blend a b 0 = a"
  by (simp add: blend_def fadd_def fmul_def fsub_def)

lemma neighbours_at_pixel:
  assumes "0 \<le> x" "x < w" "0 \<le> y" "y < h" "w < 2 ^ 31" "h < 2 ^ 31"
  shows "neighbours w h (of_int x) (of_int y) = (x, y, min (x + 1) (w - 1), min (y + 1) (h - 1))"
proof -
  have 1: "i32 x = x" "i32 y = y" using assms by (auto intro!: i32_id)
  have 2: "i32 (x + 1) = x + 1" "i32 (y + 1) = y + 1" using assms by (auto intro!: i32_id)
  have 3: "i32 (w - 1) = w - 1" "i32 (h - 1) = h - 1" using assms by (auto intro!: i32_id)
  show ?thesis using assms(1,3) by (simp add: neighbours_def f2i_def trunc_def Let_def 1 2 3)
qed

lemma dims_below_size:
  fixes w h c :: int
  assumes "0 < w" "0 < h" "0 < c"
  shows "w \<le> w * h * c" and "h \<le> w * h * c"
proof -
  have hc: "1 \<le> h * c" using assms(2,3) by (simp add: int_one_le_iff_zero_less)
  have "w * 1 \<le> w * (h * c)" using assms(1) hc by (intro mult_left_mono) auto
  then show "w \<le> w * h * c" by (simp add: mult.assoc)
  have wc: "1 \<le> w * c" using assms(1,3) by (simp add: int_one_le_iff_zero_less)
  have "h * 1 \<le> h * (w * c)" using assms(2) wc by (intro mult_left_mono) auto
  then show "h \<le> w * h * c" by (simp add: algebra_simps)
qed

lemma bilinearInterpolate_at_pixel:
  assumes k: "0 \<le> x" "x < w" "0 \<le> y" "y < h" "0 \<le> c" "c < ch"
    and fit: "w * h * ch < 2 ^ 31" and len: "int (length d) = w * h * ch"
    and small: "w \<le> 2 ^ 24" "h \<le> 2 ^ 24"
  shows "bilinearInterpolate d w h ch (of_int x) (of_int y) c = Inr (d ! nat ((y * w + x) * ch + c))"
proof -
  have n: "neighbours w h (of_int x) (of_int y) = (x, y, min (x + 1) (w - 1), min (y + 1) (h - 1))"
    using k small by (intro neighbours_at_pixel) auto
  let ?x2 = "min (x + 1) (w - 1)" and ?y2 = "min (y + 1) (h - 1)"
  have x2: "0 \<le> ?x2" "?x2 < w" and y2: "0 \<le> ?y2" "?y2 < h" using k by auto
  note g11 = getPixel_in [OF k(1,2) k(3,4) k(5,6) fit len]
  note g21 = getPixel_in [OF x2 k(3,4) k(5,6) fit len]
  note g12 = getPixel_in [OF k(1,2) y2 k(5,6) fit len]
  note g22 = getPixel_in [OF x2 y2 k(5,6) fit len]
  have dx: "fsub (of_int x) (i2f x) = 0" using k small by (simp add: fsub_def i2f_exact)
  have dy: "fsub (of_int y) (i2f y) = 0" using k small by (simp add: fsub_def i2f_exact)
  show ?thesis
    by (simp add: bilinearInterpolate_def interpolate_def n g11 g21 g12 g22 dx dy Let_def blend_0)
qed

lemma resize_pixel_identity:
  assumes k: "0 \<le> y" "y < h" "0 \<le> x" "x < w" "0 \<le> c" "c < ch"
    and fit: "w * h * ch < 2 ^ 31" and len: "int (length d) = w * h * ch"
    and small: "w \<le> 2 ^ 24" "h \<le> 2 ^ 24"
  shows "resize_pixel \<lparr>data = d, width = w, height = h, channels = ch\<rparr> w
           (fdiv (i2f w) (i2f w)) (fdiv (i2f h) (i2f h)) (y, x, c)
         = Inr ((y * w + x) * ch + c, d ! nat ((y * w + x) * ch + c))"
proof -
  have xr: "fdiv (i2f w) (i2f w) = 1" using k small by (simp add: fdiv_def i2f_exact)
  have yr: "fdiv (i2f h) (i2f h) = 1" using k small by (simp add: fdiv_def i2f_exact)
  have sx: "fmul (i2f x) 1 = of_int x" using k small by (simp add: fmul_def i2f_exact f32_of_int)
  have sy: "fmul (i2f y) 1 = of_int y" using k small by (simp add: fmul_def i2f_exact f32_of_int)
  have "pixel_index w ch x y c = (y * w + x) * ch + c"
    using k fit by (intro pixel_index_exact) auto
  then show ?thesis
    using bilinearInterpolate_at_pixel [OF k(3,4) k(1,2) k(5,6) fit len small]
    by (simp add: resize_pixel_def xr yr sx sy Let_def)
qed

lemma flat_index_onto:
  fixes w h ch j :: int
  assumes "0 \<le> j" "j < w * h * ch" "0 < w" "0 < h" "0 < ch"
  shows "\<exists>y x c. 0 \<le> y \<and> y < h \<and> 0 \<le> x \<and> x < w \<and> 0 \<le> c \<and> c < ch \<and> (y * w + x) * ch + c = j"
proof -
  define q where "q = j div ch"
  define c where "c = j mod ch"
  define y where "y = q div w"
  define x where "x = q mod w"
  have c: "0 \<le> c" "c < ch" using assms(5) by (simp_all add: c_def)
  have j: "j = q * ch + c" by (simp add: q_def c_def)
  have q0: "0 \<le> q" using assms(1,5) by (simp add: q_def pos_imp_zdiv_nonneg_iff)
  have qlt: "q < w * h"
  proof (rule ccontr)
    assume "\<not> q < w * h"
    then have "w * h \<le> q" by simp
    then have "w * h * ch \<le> q * ch" using assms(5) by (intro mult_right_mono) auto
    with j c(1) assms(2) show False by linarith
  qed
  have x: "0 \<le> x" "x < w" using assms(3) by (simp_all add: x_def)
  have q: "q = y * w + x" by (simp add: y_def x_def)
  have y0: "0 \<le> y" using q0 assms(3) by (simp add: y_def pos_imp_zdiv_nonneg_iff)
  have ylt: "y < h"
  proof (rule ccontr)
    assume "\<not> y < h"
    then have "h \<le> y" by simp
    then have "h * w \<le> y * w" using assms(3) by (intro mult_right_mono) auto
    with q x(1) qlt show False by (simp add: mult.commute) 
  qed
  from y0 ylt x c j q show ?thesis by blast
qed

lemma resizeImage_identity:
  assumes pos: "0 < w" "0 < h" "0 < ch"
    and fit: "w * h * ch < 2 ^ 31" and len: "int (length d) = w * h * ch"
    and small: "w \<le> 2 ^ 24" "h \<le> 2 ^ 24"
  shows "resizeImage \<lparr>data = d, width = w, height = h, channels = ch\<rparr> w h
           = Inr \<lparr>data = d, width = w, height = h, channels = ch\<rparr>"
proof -
  let ?inp = "\<lparr>data = d, width = w, height = h, channels = ch\<rparr>"
  let ?f = "resize_pixel ?inp w (fdiv (i2f w) (i2f w)) (fdiv (i2f h) (i2f h))"
  obtain out where r: "resizeImage ?inp w h = Inr \<lparr>data = out, width = w, height = h, channels = ch\<rparr>"
    and lo: "int (length out) = w * h * ch"
    using resizeImage_ok [OF fit len pos fit] by blast
  note n = resize_size [OF pos fit]
  have o: "store_all ?f (loop_nest h w ch) (replicate (nat (w * h * ch)) 0) = Inr out"
    using r n by (simp add: resizeImage_def Let_def split: sum.splits)
  have f: "?f (y, x, c) = Inr ((y * w + x) * ch + c, d ! nat ((y * w + x) * ch + c))"
    if "(y, x, c) \<in> set (loop_nest h w ch)" for y x c
    using that fit len small by (intro resize_pixel_identity) (auto simp: set_loop_nest)
  have sz: "size_t ((y * w + x) * ch + c) = nat ((y * w + x) * ch + c)"
    if "(y, x, c) \<in> set (loop_nest h w ch)" for y x c
  proof -
    from that have k: "0 \<le> x" "x < w" "0 \<le> y" "y < h" "0 \<le> c" "c < ch"
      by (auto simp: set_loop_nest)
    note b = flat_index_bounds [OF k]
    show ?thesis using b(3,4) k(5) fit by (intro size_t_small) auto
  qed
  have nth: "out ! j = d ! j" if j: "j < length d" for j
  proof (rule store_all_inv [OF o, where P = "\<lambda>j v. v = d ! j"])
    fix k i v assume k: "k \<in> set (loop_nest h w ch)" and fk: "?f k = Inr (i, v)"
    obtain y x c where kk: "k = (y, x, c)" by (cases k) auto
    from f [of y x c] sz [of y x c] k fk kk show "v = d ! size_t i" by auto
  next
    show "j < length (replicate (nat (w * h * ch)) (0::byte))" using j len by simp
  next
    have "0 \<le> int j" "int j < w * h * ch" using j len by auto
    from flat_index_onto [OF this pos]
    obtain y x c where k: "0 \<le> y" "y < h" "0 \<le> x" "x < w" "0 \<le> c" "c < ch"
      and e: "(y * w + x) * ch + c = int j" by blast
    have m: "(y, x, c) \<in> set (loop_nest h w ch)" using k by (simp add: set_loop_nest)
    have "size_t ((y * w + x) * ch + c) = j" using sz [OF m] e by simp
    with f [OF m] m
    show "replicate (nat (w * h * ch)) (0::byte) ! j = d ! j \<or>
          (\<exists>k\<in>set (loop_nest h w ch). \<exists>i v. ?f k = Inr (i, v) \<and> size_t i = j)"
      by blast
  qed
  have "length out = length d" using lo len by simp
  then have "out = d" using nth by (intro nth_equalityI) auto
  with r show ?thesis by simp
qed

lemma i2f_16777217: "i2f 16777217 = 16777216" by code_simp
lemma i2f_16777216: "i2f 16777216 = 16777216" by code_simp
lemma i2f_16777218: "i2f 16777218 = 16777218" by code_simp
lemma i2f_0: "i2f 0 = 0" by (simp add: i2f_def)
lemma f32_16777216: "f32 16777216 = 16777216" using i2f_16777216 by (simp add: i2f_def)

lemma wide_pixel:
  "resize_pixel wide_strip 16777218 (fdiv (i2f 16777218) (i2f 16777218)) (fdiv (i2f 1) (i2f 1))
     (0, 16777217, 0) = Inr (16777217, 0)"
proof -
  have xr: "fdiv (i2f 16777218) (i2f 16777218) = 1" by (simp add: fdiv_def i2f_16777218)
  have yr: "fdiv (i2f 1) (i2f 1) = 1" by (simp add: fdiv_def i2f_exact)
  have sx: "fmul (i2f 16777217) 1 = 16777216"
    by (simp add: fmul_def i2f_16777217 f32_16777216)
  have sy: "fmul (i2f 0) 1 = 0" by (simp add: fmul_def i2f_0)
  have n: "neighbours 16777218 1 16777216 0 = (16777216, 0, 16777217, 0)"
    by (simp add: neighbours_def f2i_def trunc_def i32_def Let_def)
  have dx: "fsub 16777216 (i2f 16777216) = 0" by (simp add: fsub_def i2f_16777216)
  have dy: "fsub 0 (i2f 0) = 0" by (simp add: fsub_def i2f_0)
  have g1: "getPixel (replicate 16777217 0 @ [1]) 16777218 1 1 16777216 0 0 = Inr 0"
    by (simp add: getPixel_def defensive_def pixel_index_def vec_at_def i32_def size_t_def
        nth_append)
  have g2: "getPixel (replicate 16777217 0 @ [1]) 16777218 1 1 16777217 0 0 = Inr 1"
    by (simp add: getPixel_def defensive_def pixel_index_def vec_at_def i32_def size_t_def
        nth_append)
  have b: "bilinearInterpolate (replicate 16777217 0 @ [1]) 16777218 1 1 16777216 0 0 = Inr 0"
    by (simp add: bilinearInterpolate_def interpolate_def n dx dy g1 g2 Let_def blend_0)
  have p: "pixel_index 16777218 1 16777217 0 0 = 16777217"
    by (simp add: pixel_index_def i32_def)
  show ?thesis
    by (simp add: resize_pixel_def wide_strip_def xr yr sx sy b p Let_def)
qed

lemma wide_strip_not_identity:
  "resizeImage wide_strip (width wide_strip) (height wide_strip) \<noteq> Inr wide_strip"
proof
  assume a: "resizeImage wide_strip (width wide_strip) (height wide_strip) = Inr wide_strip"
  let ?f = "resize_pixel wide_strip 16777218 (fdiv (i2f 16777218) (i2f 16777218))
              (fdiv (i2f 1) (i2f 1))"
  from a have o: "store_all ?f (loop_nest 1 16777218 1) (replicate 16777218 0)
                    = Inr (replicate 16777217 0 @ [1])"
    by (auto simp: resizeImage_def wide_strip_def i32_def Let_def split: sum.splits)
  have "(replicate 16777217 0 @ [1 :: byte]) ! 16777217 = 0"
  proof (rule store_all_inv [OF o, where P = "\<lambda>j v. j = 16777217 \<longrightarrow> v = 0" and j = 16777217,
        THEN mp])
    fix k i v assume k: "k \<in> set (loop_nest 1 16777218 1)" and fk: "?f k = Inr (i, v)"
    obtain y x c where kk: "k = (y, x, c)" by (cases k) auto
    with k have r: "y = 0" "c = 0" "0 \<le> x" "x < 16777218" by (auto simp: set_loop_nest)
    have "pixel_index 16777218 1 x 0 0 = x" using r by (simp add: pixel_index_def i32_id)
    with fk kk r have ix: "i = x"
      by (auto simp: resize_pixel_def wide_strip_def Let_def split: sum.splits)
    show "size_t i = 16777217 \<longrightarrow> v = 0"
    proof
      assume "size_t i = 16777217"
      then have "x = 16777217" using ix r by (simp add: size_t_small)
      with fk kk r wide_pixel show "v = 0" by simp
    qed
  next
    show "16777217 < length (replicate 16777218 (0::byte))" by simp
  next
    show "(16777217 = (16777217::nat) \<longrightarrow> replicate 16777218 (0::byte) ! 16777217 = 0) \<or>
          (\<exists>k\<in>set (loop_nest 1 16777218 1). \<exists>i v. ?f k = Inr (i, v) \<and> size_t i = 16777217)"
      by simp
  qed simp
  then show False by (simp add: nth_append)
qed

text \<open>
  C8, as stated, fails twice. (1) The valid buffer \<open>huge_gray\<close> has \<open>2^31\<close> bytes:
  \<^verbatim>\<open>newWidth * newHeight * input.channels\<close> leaves the range of \<^verbatim>\<open>int\<close>, the vector is asked
  for a negative size and no buffer is returned. (2) In the valid buffer \<open>wide_strip\<close>
  the last pixel has the \<open>x\<close> coordinate \<open>2^24 + 1\<close>, which a \<^verbatim>\<open>float\<close> cannot hold: the
  loop variable converts to \<open>2^24\<close>, the pixel sampled is the neighbour to the left,
  and resizing to the same dimensions does not reproduce the source.
\<close>

theorem resize_identity_counterexample:
  "valid_PixelBuffer huge_gray \<and> resizeImage huge_gray 65536 32768 = Inl LengthError \<and>
   valid_PixelBuffer wide_strip \<and> 
   width wide_strip * height wide_strip * channels wide_strip < 2 ^ 31 \<and>
   resizeImage wide_strip (width wide_strip) (height wide_strip) \<noteq> Inr wide_strip"
proof -
  have 1: "valid_PixelBuffer huge_gray" by (simp add: valid_PixelBuffer_def huge_gray_def)
  have 2: "resizeImage huge_gray 65536 32768 = Inl LengthError"
    by (simp add: resizeImage_def huge_gray_def i32_def Let_def)
  have 3: "valid_PixelBuffer wide_strip" by (simp add: valid_PixelBuffer_def wide_strip_def)
  have 4: "width wide_strip * height wide_strip * channels wide_strip < 2 ^ 31"
    by (simp add: wide_strip_def)
  from 1 2 3 4 wide_strip_not_identity show ?thesis by (intro conjI)
qed

text \<open>
  C8, amended: for every valid source PixelBuffer and positive target dimensions, where
  the source size and the target size \<open>dstW * dstH * channels\<close> fit a 32-bit \<^verbatim>\<open>int\<close>,
  \<^verbatim>\<open>resizeImage\<close> returns a buffer of exactly \<open>dstW * dstH * channels\<close> bytes with the
  target dimensions and the source's channel count; and when the target dimensions are
  the source's and neither exceeds \<open>2^24\<close> (every pixel coordinate is a \<^verbatim>\<open>float\<close>), the
  result is the source itself.
\<close>

theorem resize_size_and_identity:
  "(valid_PixelBuffer src \<and> width src * height src * channels src < 2 ^ 31 \<and>
    0 < dstW \<and> 0 < dstH \<and> dstW * dstH * channels src < 2 ^ 31 \<longrightarrow>
      (\<exists>out. resizeImage src dstW dstH
                = Inr \<lparr>data = out, width = dstW, height = dstH, channels = channels src\<rparr> \<and>
             int (length out) = dstW * dstH * channels src)) \<and>
   (valid_PixelBuffer src \<and> width src * height src * channels src < 2 ^ 31 \<and>
    width src \<le> 2 ^ 24 \<and> height src \<le> 2 ^ 24 \<longrightarrow>
      resizeImage src (width src) (height src) = Inr src)"
proof (intro conjI impI)
  assume a: "valid_PixelBuffer src \<and> width src * height src * channels src < 2 ^ 31 \<and>
    0 < dstW \<and> 0 < dstH \<and> dstW * dstH * channels src < 2 ^ 31"
  obtain d w h c where s: "src = \<lparr>data = d, width = w, height = h, channels = c\<rparr>"
    by (cases src) auto
  from a show "\<exists>out. resizeImage src dstW dstH
                = Inr \<lparr>data = out, width = dstW, height = dstH, channels = channels src\<rparr> \<and>
             int (length out) = dstW * dstH * channels src"
    unfolding s using resizeImage_ok [of w h c d dstW dstH]
    by (simp add: valid_PixelBuffer_def)
next
  assume a: "valid_PixelBuffer src \<and> width src * height src * channels src < 2 ^ 31 \<and>
    width src \<le> 2 ^ 24 \<and> height src \<le> 2 ^ 24"
  obtain d w h c where s: "src = \<lparr>data = d, width = w, height = h, channels = c\<rparr>"
    by (cases src) auto
  from a show "resizeImage src (width src) (height src) = Inr src"
    unfolding s using resizeImage_identity [of w h c d]
    by (simp add: valid_PixelBuffer_def)
qed

text \<open>Witness for C8: a 2 x 1 RGB buffer, resized to 3 x 2 and to 2 x 1.\<close>

theorem resize_size_and_identity_witness:
  "valid_PixelBuffer \<lparr>data = [1, 2, 3, 4, 5, 6], width = 2, height = 1, channels = 3\<rparr> \<and>
   (\<exists>out. resizeImage \<lparr>data = [1, 2, 3, 4, 5, 6], width = 2, height = 1, channels = 3\<rparr> 3 2
             = Inr \<lparr>data = out, width = 3, height = 2, channels = 3\<rparr> \<and>
           int (length out) = 18) \<and>
   resizeImage \<lparr>data = [1, 2, 3, 4, 5, 6], width = 2, height = 1, channels = 3\<rparr> 2 1
     = Inr \<lparr>data = [1, 2, 3, 4, 5, 6], width = 2, height = 1, channels = 3\<rparr>"
  using resize_size_and_identity
    [of "\<lparr>data = [1, 2, 3, 4, 5, 6], width = 2, height = 1, channels = 3\<rparr>" 3 2]
  by (simp add: valid_PixelBuffer_def)

subsection \<open>Bilinear interpolation inside the image\<close>

lemma float_large_int:
  assumes fx: "f32 x = x" and big: "2 ^ 24 \<le> x"
  shows "of_int \<lfloor>x\<rfloor> = x"
proof -
  have x0: "x \<noteq> 0" using big by auto
  have xa: "\<bar>x\<bar> = x" using big by simp
  have "(2::rat) powi 24 \<le> \<bar>x\<bar>" using big xa by simp
  also have "\<dots> < 2 powi (ilog2 x + 1)" using ilog2_bounds [OF x0] by simp
  finally have "24 < ilog2 x + 1" by (rule powi2_less_cancel)
  then have e: "24 \<le> ilog2 x" by simp
  define n where "n = nat (ilog2 x - 23)"
  have "quantum x = 2 powi (ilog2 x - 23)" using e by (simp add: quantum_def)
  also have "\<dots> = 2 ^ n" using e by (simp add: n_def power_int_nonneg_exp)
  finally have q: "quantum x = 2 ^ n" .
  have "x = of_int (round_even (x / quantum x)) * quantum x"
    using fx x0 by (simp add: f32_quantum)
  then have "x = of_int (round_even (x / quantum x) * 2 ^ n)" by (simp add: q)
  then show ?thesis by (metis floor_of_int)
qed

lemma i2f_floor:
  assumes fx: "f32 x = x" and x0: "0 \<le> x"
  shows "i2f \<lfloor>x\<rfloor> = of_int \<lfloor>x\<rfloor>"
proof (cases "x < 2 ^ 24")
  case True
  have "0 \<le> \<lfloor>x\<rfloor>" using x0 by simp
  moreover have "\<lfloor>x\<rfloor> \<le> 2 ^ 24"
  proof -
    have "of_int \<lfloor>x\<rfloor> \<le> x" by simp
    with True have "(of_int \<lfloor>x\<rfloor> :: rat) \<le> of_int (2 ^ 24)" by simp
    then show ?thesis by (simp only: of_int_le_iff)
  qed
  ultimately show ?thesis by (intro i2f_exact) simp
next
  case False
  then have e: "of_int \<lfloor>x\<rfloor> = x" using fx by (intro float_large_int) auto
  show ?thesis unfolding i2f_def e by (rule fx)
qed

lemma fraction_bounds:
  assumes fx: "f32 x = x" and x0: "0 \<le> x"
  shows "0 \<le> fsub x (i2f \<lfloor>x\<rfloor>)" and "fsub x (i2f \<lfloor>x\<rfloor>) \<le> 1"
proof -
  have d: "fsub x (i2f \<lfloor>x\<rfloor>) = f32 (x - of_int \<lfloor>x\<rfloor>)"
    by (simp add: fsub_def i2f_floor [OF fx x0])
  have lo: "0 \<le> x - of_int \<lfloor>x\<rfloor>" by simp
  have hi: "x - of_int \<lfloor>x\<rfloor> \<le> 1" by linarith
  show "0 \<le> fsub x (i2f \<lfloor>x\<rfloor>)" unfolding d using lo by (rule f32_nonneg)
  have "f32 (x - of_int \<lfloor>x\<rfloor>) \<le> f32 1" using hi by (rule f32_mono)
  then show "fsub x (i2f \<lfloor>x\<rfloor>) \<le> 1" unfolding d by simp
qed

lemma blend_bounds:
  assumes a: "0 \<le> a" "a \<le> M" and b: "0 \<le> b" "b \<le> M" and t: "0 \<le> t" "t \<le> 1"
    and M: "M \<le> 511 / 2"
  shows "0 \<le> blend a b t" and "blend a b t \<le> M + 1 / 1000"
proof -
  define s where "s = f32 (1 - t)"
  define pa where "pa = f32 (a * s)"
  define pb where "pb = f32 (b * t)"
  have bl: "blend a b t = f32 (pa + pb)"
    by (simp add: blend_def fadd_def fmul_def fsub_def s_def pa_def pb_def)
  have M0: "0 \<le> M" using a by linarith
  have s0: "0 \<le> s" unfolding s_def using t by (intro f32_nonneg) simp
  have "f32 (1 - t) \<le> f32 1" using t by (intro f32_mono) simp
  then have s1: "s \<le> 1" by (simp add: s_def)
  have es: "\<bar>s - (1 - t)\<bar> \<le> 1 / 33554432"
    unfolding s_def using t by (intro f32_err_1) linarith
  have as: "a * s \<le> M * s" using a(2) s0 by (rule mult_right_mono)
  have bt: "b * t \<le> M * t" using b(2) t(1) by (rule mult_right_mono)
  have "M * s \<le> M * 1" using s1 M0 by (rule mult_left_mono)
  then have Ms: "M * s \<le> M" by simp
  have "M * t \<le> M * 1" using t(2) M0 by (rule mult_left_mono)
  then have Mt: "M * t \<le> M" by simp
  have as0: "0 \<le> a * s" using a(1) s0 by simp
  have bt0: "0 \<le> b * t" using b(1) t(1) by simp
  have ea: "\<bar>pa - a * s\<bar> \<le> 1 / 131072"
    unfolding pa_def using as0 as Ms M by (intro f32_err_256) linarith
  have eb: "\<bar>pb - b * t\<bar> \<le> 1 / 131072"
    unfolding pb_def using bt0 bt Mt M by (intro f32_err_256) linarith
  have pa0: "0 \<le> pa" unfolding pa_def using as0 by (rule f32_nonneg)
  have pb0: "0 \<le> pb" unfolding pb_def using bt0 by (rule f32_nonneg)
  have "s + t \<le> 1 + 1 / 33554432" using es by linarith
  then have "M * (s + t) \<le> M * (1 + 1 / 33554432)" using M0 by (rule mult_left_mono)
  then have Mst: "M * s + M * t \<le> M + M / 33554432" by (simp add: algebra_simps)
  have sum: "pa + pb \<le> M + M / 33554432 + 1 / 65536" using ea eb as bt Mst by linarith
  have er: "\<bar>f32 (pa + pb) - (pa + pb)\<bar> \<le> 1 / 131072"
    using sum pa0 pb0 M by (intro f32_err_256) linarith
  show "0 \<le> blend a b t" unfolding bl using pa0 pb0 by (intro f32_nonneg) simp
  show "blend a b t \<le> M + 1 / 1000" unfolding bl using er sum M by linarith
qed

lemma floor_coordinate:
  fixes x :: rat
  assumes "0 \<le> x" "x \<le> of_int (w - 1)"
  shows "0 \<le> \<lfloor>x\<rfloor>" and "\<lfloor>x\<rfloor> \<le> w - 1"
proof -
  show "0 \<le> \<lfloor>x\<rfloor>" using assms(1) by simp
  have "\<lfloor>x\<rfloor> \<le> \<lfloor>(of_int (w - 1) :: rat)\<rfloor>" using assms(2) by (rule floor_mono)
  then show "\<lfloor>x\<rfloor> \<le> w - 1" by (simp only: floor_of_int)
qed

lemma neighbours_in_range:
  fixes x y :: rat
  assumes x: "0 \<le> x" "x \<le> of_int (w - 1)" and y: "0 \<le> y" "y \<le> of_int (h - 1)"
    and w: "w < 2 ^ 31" and h: "h < 2 ^ 31"
  shows "neighbours w h x y = (\<lfloor>x\<rfloor>, \<lfloor>y\<rfloor>, min (\<lfloor>x\<rfloor> + 1) (w - 1), min (\<lfloor>y\<rfloor> + 1) (h - 1))"
proof -
  note fx = floor_coordinate [OF x] and fy = floor_coordinate [OF y]
  have 1: "i32 \<lfloor>x\<rfloor> = \<lfloor>x\<rfloor>" "i32 \<lfloor>y\<rfloor> = \<lfloor>y\<rfloor>"
    using fx fy w h by (intro i32_id; linarith)+
  have 2: "i32 (\<lfloor>x\<rfloor> + 1) = \<lfloor>x\<rfloor> + 1" "i32 (\<lfloor>y\<rfloor> + 1) = \<lfloor>y\<rfloor> + 1"
    using fx fy w h by (intro i32_id; linarith)+
  have 3: "i32 (w - 1) = w - 1" "i32 (h - 1) = h - 1"
    using fx fy w h by (intro i32_id; linarith)+
  show ?thesis by (simp add: neighbours_def f2i_def trunc_of_int Let_def 1 2 3)
qed


lemma f2u8_no_wrap:
  assumes "0 \<le> v" "v < 256"
  shows "uint (f2u8 v) = \<lfloor>v\<rfloor>"
proof -
  have f0: "0 \<le> \<lfloor>v\<rfloor>" using assms(1) by simp
  have "v < of_int 256" using assms(2) by simp
  then have f256: "\<lfloor>v\<rfloor> < 256" by (simp only: floor_less_iff)
  have "uint (word_of_int \<lfloor>v\<rfloor> :: byte) = \<lfloor>v\<rfloor>"
    using f0 f256 by (simp add: uint_word_of_int_eq take_bit_int_eq_self)
  then show ?thesis using assms(1) by (simp add: f2u8_def trunc_def)
qed

lemma read_in_bounds:
  assumes "0 \<le> px" "px < w" "0 \<le> py" "py < h" "0 \<le> c" "c < ch" "w * h * ch < 2 ^ 31"
    and "int (length d) = w * h * ch"
  shows "\<not> defensive w h px py \<and> 0 \<le> pixel_index w ch px py c \<and>
         pixel_index w ch px py c < int (length d)"
proof -
  note b = flat_index_bounds [OF assms(1-6)]
  have "pixel_index w ch px py c = (py * w + px) * ch + c"
    using assms(1-7) by (rule pixel_index_exact)
  then show ?thesis using b(3,4) assms by (simp add: defensive_def)
qed

text \<open>
  C10, as stated, fails. In a well-formed 65536 x 32769 one-channel image the sample
  (0, 32768) lies inside the image, but \<^verbatim>\<open>py * width\<close> is \<open>2^31\<close> and leaves the range of
  \<^verbatim>\<open>int\<close>: the index wraps to \<open>-2^31\<close> and the unchecked read is outside the data.
\<close>

theorem interpolation_in_bounds_counterexample:
  "(1::int) \<le> 65536 \<and> (1::int) \<le> 32769 \<and>
   int (length tall_image) = 65536 * 32769 * 1 \<and>
   f32 0 = 0 \<and> f32 32768 = 32768 \<and> (0::rat) \<le> 32768 \<and> (32768::rat) \<le> of_int (32769 - 1) \<and>
   neighbours 65536 32769 0 32768 = (0, 32768, 1, 32768) \<and>
   pixel_index 65536 1 0 32768 0 = - 2147483648 \<and>
   bilinearInterpolate tall_image 65536 32769 1 0 32768 0 = Inl OutOfBounds"
proof -
  have l: "int (length tall_image) = 65536 * 32769 * 1" by (simp add: tall_image_def)
  have f: "f32 32768 = 32768" using f32_of_int [of 32768] by simp
  have n: "neighbours 65536 32769 0 32768 = (0, 32768, 1, 32768)"
    by (simp add: neighbours_def f2i_def trunc_def i32_def Let_def)
  have p: "pixel_index 65536 1 0 32768 0 = - 2147483648"
    by (simp add: pixel_index_def i32_def)
  have g: "getPixel tall_image 65536 32769 1 0 32768 0 = Inl OutOfBounds"
    by (simp add: getPixel_def defensive_def p vec_at_def size_t_def tall_image_def)
  have b: "bilinearInterpolate tall_image 65536 32769 1 0 32768 0 = Inl OutOfBounds"
    by (simp add: bilinearInterpolate_def interpolate_def n g Let_def)
  from l f n p b show ?thesis by simp
qed

text \<open>
  The interpolated \<^verbatim>\<open>float\<close> can exceed 255 by a rounding error: on a 2 x 2 image of bytes
  255 the weights \<open>1 - dx\<close> and \<open>dx\<close> are rounded and need not add up to 1. The cast still
  yields 255.
\<close>

lemma interpolate_above_255:
  "interpolate [255, 255, 255, 255] 2 2 1 (13714193 / 33554432) 0 0 = Inr (16711681 / 65536) \<and>
   bilinearInterpolate [255, 255, 255, 255] 2 2 1 (13714193 / 33554432) 0 0 = Inr 255"
  by code_simp

text \<open>
  C10, amended: for every well-formed image (\<open>width \<ge> 1\<close>, \<open>height \<ge> 1\<close>, data length
  \<open>width * height * channels\<close>) whose size fits a 32-bit \<^verbatim>\<open>int\<close>, every channel index
  \<open>0 \<le> c < channels\<close> and every sample coordinate that is a \<^verbatim>\<open>float\<close> with
  \<open>0 \<le> x \<le> width - 1\<close> and \<open>0 \<le> y \<le> height - 1\<close>: none of the four reads of
  \<^verbatim>\<open>bilinearInterpolate\<close> takes the defensive branch, each reads an index inside the
  data, and the interpolated \<^verbatim>\<open>float\<close> value \<open>v\<close> satisfies \<open>0 \<le> v < 256\<close>, so that the
  cast to a byte does not wrap: the byte returned is the integer part of \<open>v\<close>.
\<close>

theorem interpolation_in_bounds:
  assumes dims: "1 \<le> w" "1 \<le> h" and len: "int (length d) = w * h * ch"
    and fit: "w * h * ch < 2 ^ 31" and c: "0 \<le> c" "c < ch"
    and fl: "f32 x = x" "f32 y = y"
    and x: "0 \<le> x" "x \<le> of_int (w - 1)" and y: "0 \<le> y" "y \<le> of_int (h - 1)"
  shows "case neighbours w h x y of (x1, y1, x2, y2) \<Rightarrow>
           list_all (\<lambda>(px, py). \<not> defensive w h px py \<and> 0 \<le> pixel_index w ch px py c \<and>
                                pixel_index w ch px py c < int (length d))
             [(x1, y1), (x2, y1), (x1, y2), (x2, y2)] \<and>
           (\<exists>v. interpolate d w h ch x y c = Inr v \<and> 0 \<le> v \<and> v < 256 \<and>
                bilinearInterpolate d w h ch x y c = Inr (f2u8 v) \<and> uint (f2u8 v) = \<lfloor>v\<rfloor>)"
proof -
  have ch: "0 < ch" using c by linarith
  have w0: "0 < w" and h0: "0 < h" using dims by auto
  note ds = dims_below_size [OF w0 h0 ch]
  have wb: "w < 2 ^ 31" and hb: "h < 2 ^ 31" using ds fit by auto
  define X Y where "X = \<lfloor>x\<rfloor>" and "Y = \<lfloor>y\<rfloor>"
  define X2 Y2 where "X2 = min (X + 1) (w - 1)" and "Y2 = min (Y + 1) (h - 1)"
  have n: "neighbours w h x y = (X, Y, X2, Y2)"
    unfolding X_def Y_def X2_def Y2_def using x y wb hb by (rule neighbours_in_range)
  have X: "0 \<le> X" "X < w" using floor_coordinate [OF x] by (auto simp: X_def)
  have Y: "0 \<le> Y" "Y < h" using floor_coordinate [OF y] by (auto simp: Y_def)
  have X2: "0 \<le> X2" "X2 < w" using X dims by (auto simp: X2_def)
  have Y2: "0 \<le> Y2" "Y2 < h" using Y dims by (auto simp: Y2_def)
  note r11 = read_in_bounds [OF X Y c fit len] and r21 = read_in_bounds [OF X2 Y c fit len]
    and r12 = read_in_bounds [OF X Y2 c fit len] and r22 = read_in_bounds [OF X2 Y2 c fit len]
  define p11 p21 p12 p22 where "p11 = d ! nat ((Y * w + X) * ch + c)"
    and "p21 = d ! nat ((Y * w + X2) * ch + c)" and "p12 = d ! nat ((Y2 * w + X) * ch + c)"
    and "p22 = d ! nat ((Y2 * w + X2) * ch + c)"
  have g11: "getPixel d w h ch X Y c = Inr p11"
    unfolding p11_def by (rule getPixel_in [OF X Y c fit len])
  have g21: "getPixel d w h ch X2 Y c = Inr p21"
    unfolding p21_def by (rule getPixel_in [OF X2 Y c fit len])
  have g12: "getPixel d w h ch X Y2 c = Inr p12"
    unfolding p12_def by (rule getPixel_in [OF X Y2 c fit len])
  have g22: "getPixel d w h ch X2 Y2 c = Inr p22"
    unfolding p22_def by (rule getPixel_in [OF X2 Y2 c fit len])
  define dx dy where "dx = fsub x (i2f X)" and "dy = fsub y (i2f Y)"
  have dx: "0 \<le> dx" "dx \<le> 1"
    unfolding dx_def X_def using fraction_bounds [OF fl(1) x(1)] by auto
  have dy: "0 \<le> dy" "dy \<le> 1"
    unfolding dy_def Y_def using fraction_bounds [OF fl(2) y(1)] by auto
  define top bottom where "top = blend (u8f p11) (u8f p21) dx"
    and "bottom = blend (u8f p12) (u8f p22) dx"
  have top: "0 \<le> top" "top \<le> 255 + 1 / 1000"
    unfolding top_def
    using blend_bounds [of "u8f p11" 255 "u8f p21" dx] u8f_range dx by auto
  have bottom: "0 \<le> bottom" "bottom \<le> 255 + 1 / 1000"
    unfolding bottom_def
    using blend_bounds [of "u8f p12" 255 "u8f p22" dx] u8f_range dx by auto
  define v where "v = blend top bottom dy"
  have v0: "0 \<le> v" and "v \<le> (255 + 1 / 1000) + 1 / 1000"
    unfolding v_def
    using blend_bounds [of top "255 + 1 / 1000" bottom dy] top bottom dy by auto
  then have v256: "v < 256" by simp
  have i: "interpolate d w h ch x y c = Inr v"
    by (simp add: interpolate_def n g11 g21 g12 g22 Let_def v_def top_def bottom_def dx_def dy_def)
  then have b: "bilinearInterpolate d w h ch x y c = Inr (f2u8 v)"
    by (simp add: bilinearInterpolate_def)
  have u: "uint (f2u8 v) = \<lfloor>v\<rfloor>" using v0 v256 by (rule f2u8_no_wrap)
  show ?thesis unfolding n using r11 r21 r12 r22 i v0 v256 b u by simp
qed

text \<open>Witness for C10: the centre of a 2 x 2 one-channel image.\<close>

theorem interpolation_in_bounds_witness:
  "(1::int) \<le> 2 \<and> int (length [10, 20, 30, 40 :: byte]) = 2 * 2 * 1 \<and>
   f32 (1 / 2) = 1 / 2 \<and> (1 / 2 :: rat) \<le> of_int (2 - 1) \<and>
   (case neighbours 2 2 (1 / 2) (1 / 2) of (x1, y1, x2, y2) \<Rightarrow>
      list_all (\<lambda>(px, py). \<not> defensive 2 2 px py \<and> 0 \<le> pixel_index 2 1 px py 0 \<and>
                            pixel_index 2 1 px py 0 < int (length [10, 20, 30, 40 :: byte]))
        [(x1, y1), (x2, y1), (x1, y2), (x2, y2)] \<and>
      (\<exists>v. interpolate [10, 20, 30, 40] 2 2 1 (1 / 2) (1 / 2) 0 = Inr v \<and> 0 \<le> v \<and> v < 256 \<and>
           bilinearInterpolate [10, 20, 30, 40] 2 2 1 (1 / 2) (1 / 2) 0 = Inr (f2u8 v) \<and>
           uint (f2u8 v) = \<lfloor>v\<rfloor>))"
proof -
  have h: "f32 (1 / 2) = 1 / 2"
    using f32_powi2 [of "- 1"] by (simp add: power_int_minus_divide)
  show ?thesis
    using h interpolation_in_bounds [of 2 2 "[10, 20, 30, 40]" 1 0 "1 / 2" "1 / 2"]
    by simp
qed

end
